theory Spec2Isabelle
  imports Complex_Main "HOL-Library.Monad_Syntax"
begin

section \<open>Transit periodogram: the model\<close>

text \<open>
  A shallow embedding of \<^verbatim>\<open>transit_periodogram.c\<close>.

  \<^item> A C \<^verbatim>\<open>double\<close> is an exact \<open>real\<close>: no rounding, no NaN, no overflow. Where the C
    arithmetic would leave the finite reals (a division by zero, the square root of a
    negative number) the model returns \<open>None\<close> instead of HOL's default value.
  \<^item> The one non-finite value the code itself writes, \<^verbatim>\<open>-INFINITY\<close>, is the constructor
    \<open>MinusInfinity\<close> of the type of \<^verbatim>\<open>best_objective\<close>.
  \<^item> A C \<^verbatim>\<open>int\<close> is an unbounded \<open>int\<close>; every array access is checked, and an access
    outside the array makes the model return \<open>None\<close> (the C behaviour is undefined there).
  \<^item> The index expressions of the scratch arrays are modelled a second time, with a 32-bit
    \<^verbatim>\<open>int\<close>, rounded divisions and timestamps that may be a NaN or an infinity; the bound
    on the scratch indices is stated of that model.
  \<^item> The build modelled is the one without OpenMP: \<^verbatim>\<open>nthreads = 1\<close>, \<^verbatim>\<open>ithread = 0\<close>.
\<close>

subsection \<open>C library functions and constants\<close>

text \<open>\<^verbatim>\<open>DBL_EPSILON\<close> of \<^verbatim>\<open>float.h\<close> for IEEE binary64.\<close>

definition DBL_EPSILON :: real where
  "DBL_EPSILON = 1 / 2 ^ 52"

text \<open>The conversion \<^verbatim>\<open>(int) x\<close>: truncation toward zero.\<close>

definition c_trunc :: "real \<Rightarrow> int" where
  "c_trunc x = (if 0 \<le> x then \<lfloor>x\<rfloor> else \<lceil>x\<rceil>)"

text \<open>\<^verbatim>\<open>(int) round(x)\<close>: to the nearest integer, halves away from zero.\<close>

definition c_round :: "real \<Rightarrow> int" where
  "c_round x = (if 0 \<le> x then \<lfloor>x + 1 / 2\<rfloor> else \<lceil>x - 1 / 2\<rceil>)"

text \<open>\<^verbatim>\<open>fmod(x, y)\<close> for \<open>y \<noteq> 0\<close>: the remainder with the sign of \<open>x\<close>.\<close>

definition fmod :: "real \<Rightarrow> real \<Rightarrow> real" where
  "fmod x y = x - of_int (c_trunc (x / y)) * y"

definition fabs :: "real \<Rightarrow> real" where
  "fabs x = \<bar>x\<bar>"

subsection \<open>Checked array access\<close>

definition rd :: "'a list \<Rightarrow> int \<Rightarrow> 'a option" where
  "rd xs i = (if 0 \<le> i \<and> i < int (length xs) then Some (xs ! nat i) else None)"

definition wr :: "'a list \<Rightarrow> int \<Rightarrow> 'a \<Rightarrow> 'a list option" where
  "wr xs i v = (if 0 \<le> i \<and> i < int (length xs) then Some (xs[nat i := v]) else None)"

subsection \<open>The objective evaluator\<close>

text \<open>
  The five out-parameters of \<^verbatim>\<open>compute_objective\<close>, which are the five locals
  \<^verbatim>\<open>objective, log_like, depth, depth_err, depth_snr\<close> of the scanner.
\<close>

record objvals =
  objective :: real
  log_likelihood :: real
  depth :: real
  depth_err :: real
  depth_snr :: real

text \<open>
  \<^verbatim>\<open>compute_objective\<close> (lines 9-37). The result is \<open>None\<close> where the depth branch
  leaves the finite reals: \<^verbatim>\<open>1.0 / 0\<close>, the square root of a negative sum, or a division
  by a zero \<^verbatim>\<open>depth_err\<close>.
\<close>

definition compute_objective ::
  "real \<Rightarrow> real \<Rightarrow> real \<Rightarrow> real \<Rightarrow> real \<Rightarrow> real \<Rightarrow> real \<Rightarrow> int \<Rightarrow> objvals \<Rightarrow> objvals option" where
  "compute_objective y_in y_out ivar_in ivar_out sum_y2 sum_y sum_ivar obj_flag out =
     (if obj_flag \<noteq> 0 then
        let arg = y_in - y_out;
            chi2 = sum_y2 - 2 * y_out * sum_y;
            chi2 = chi2 + y_out * y_out * sum_ivar;
            chi2 = chi2 - arg * arg * ivar_in;
            out = out\<lparr>log_likelihood := - 0.5 * chi2\<rparr>
        in Some (out\<lparr>objective := log_likelihood out\<rparr>)
      else if ivar_in = 0 \<or> ivar_out = 0 \<or> 1 / ivar_in + 1 / ivar_out \<le> 0 then None
      else
        let out = out\<lparr>depth := y_out - y_in\<rparr>;
            out = out\<lparr>depth_err := sqrt (1 / ivar_in + 1 / ivar_out)\<rparr>;
            out = out\<lparr>depth_snr := depth out / depth_err out\<rparr>
        in Some (out\<lparr>objective := depth_snr out\<rparr>))"

subsection \<open>Inputs, outputs and the environment\<close>

text \<open>
  The parallel input arrays \<^verbatim>\<open>t\<close>, \<^verbatim>\<open>y\<close>, \<^verbatim>\<open>ivar\<close> of length \<^verbatim>\<open>N\<close> are one list of \<open>N\<close>
  samples \<open>(t, y, ivar)\<close>. \<^verbatim>\<open>periods\<close> and \<^verbatim>\<open>durations\<close> are lists, \<^verbatim>\<open>n_periods\<close> and
  \<^verbatim>\<open>n_durations\<close> their lengths.
\<close>

type_synonym sample = "real \<times> real \<times> real"

text \<open>The scratch arrays \<open>(mean_y, mean_ivar)\<close> and the sums \<open>(sum_y2, sum_y, sum_ivar)\<close>.\<close>

type_synonym bins = "real list \<times> real list"
type_synonym totals = "real \<times> real \<times> real"

datatype objval = MinusInfinity | Finite real

text \<open>The seven caller-supplied output arrays.\<close>

record outputs =
  best_objective :: "objval list"
  best_depth :: "real list"
  best_depth_err :: "real list"
  best_duration :: "real list"
  best_phase :: "real list"
  best_depth_snr :: "real list"
  best_log_like :: "real list"

text \<open>
  What the code takes from its environment: whether each of the three \<^verbatim>\<open>malloc\<close> calls
  succeeds, the contents of the memory the two scratch allocations return, and the
  values of the five uninitialised locals of line 172.
\<close>

record env =
  durations_index_alloc :: bool
  mean_y_0_alloc :: "(nat \<Rightarrow> real) option"
  mean_ivar_0_alloc :: "(nat \<Rightarrow> real) option"
  locals_uninit :: objvals

subsection \<open>Range validation and derived quantities\<close>

text \<open>The loops of lines 69-72 and 75-78, started from the first element.\<close>

fun minmax :: "real list \<Rightarrow> real \<times> real \<Rightarrow> real \<times> real" where
  "minmax [] (mn, mx) = (mn, mx)"
| "minmax (x # xs) (mn, mx) = minmax xs (if x < mn then x else mn, if x > mx then x else mx)"

text \<open>Lines 86-89.\<close>

definition duration_bins :: "real \<Rightarrow> real \<Rightarrow> int" where
  "duration_bins bin_duration d =
     (let i = c_round (d / bin_duration) in if i \<le> 0 then 1 else i)"

text \<open>Lines 115-122.\<close>

fun accumulate :: "sample list \<Rightarrow> totals \<Rightarrow> totals" where
  "accumulate [] s = s"
| "accumulate ((t, y, ivar) # rest) (sum_y2, sum_y, sum_ivar) =
     (let tmp = y * ivar in accumulate rest (sum_y2 + y * tmp, sum_y + tmp, sum_ivar + ivar))"

subsection \<open>Binning, wrap-around and cumulative sums\<close>

text \<open>Lines 142-145.\<close>

function clear_bins :: "int \<Rightarrow> int \<Rightarrow> bins \<Rightarrow> bins option" where
  "clear_bins n_bins n (mean_y, mean_ivar) =
     (if n < n_bins + 1 then do {
        mean_y' \<leftarrow> wr mean_y n 0;
        mean_ivar' \<leftarrow> wr mean_ivar n 0;
        clear_bins n_bins (n + 1) (mean_y', mean_ivar')
      } else Some (mean_y, mean_ivar))"
  by pat_completeness auto
termination
  by (relation "measure (\<lambda>(n_bins, n, b). nat (n_bins + 1 - n))") auto

text \<open>Lines 146-150.\<close>

definition bin_index :: "real \<Rightarrow> real \<Rightarrow> real \<Rightarrow> int" where
  "bin_index period bin_duration t = c_trunc (fabs (fmod t period) / bin_duration) + 1"

fun bin_samples :: "real \<Rightarrow> real \<Rightarrow> sample list \<Rightarrow> bins \<Rightarrow> bins option" where
  "bin_samples period bin_duration [] b = Some b"
| "bin_samples period bin_duration ((t, y, ivar) # rest) (mean_y, mean_ivar) = do {
     let ind = bin_index period bin_duration t;
     old_y \<leftarrow> rd mean_y ind;
     mean_y' \<leftarrow> wr mean_y ind (old_y + y * ivar);
     old_ivar \<leftarrow> rd mean_ivar ind;
     mean_ivar' \<leftarrow> wr mean_ivar ind (old_ivar + ivar);
     bin_samples period bin_duration rest (mean_y', mean_ivar')
   }"

text \<open>Lines 154-157, entered with \<open>n = 1\<close> and \<open>ind = n_bins - oversample\<close>.\<close>

function wrap_bins :: "int \<Rightarrow> int \<Rightarrow> int \<Rightarrow> bins \<Rightarrow> bins option" where
  "wrap_bins oversample n ind (mean_y, mean_ivar) =
     (if n \<le> oversample then do {
        src_y \<leftarrow> rd mean_y n;
        mean_y' \<leftarrow> wr mean_y ind src_y;
        src_ivar \<leftarrow> rd mean_ivar n;
        mean_ivar' \<leftarrow> wr mean_ivar ind src_ivar;
        wrap_bins oversample (n + 1) (ind + 1) (mean_y', mean_ivar')
      } else Some (mean_y, mean_ivar))"
  by pat_completeness auto
termination
  by (relation "measure (\<lambda>(oversample, n, ind, b). nat (oversample + 1 - n))") auto

text \<open>Lines 164-167, entered with \<open>n = 1\<close>.\<close>

function cumulate :: "int \<Rightarrow> int \<Rightarrow> bins \<Rightarrow> bins option" where
  "cumulate n_bins n (mean_y, mean_ivar) =
     (if n \<le> n_bins then do {
        cur_y \<leftarrow> rd mean_y n;
        prev_y \<leftarrow> rd mean_y (n - 1);
        mean_y' \<leftarrow> wr mean_y n (cur_y + prev_y);
        cur_ivar \<leftarrow> rd mean_ivar n;
        prev_ivar \<leftarrow> rd mean_ivar (n - 1);
        mean_ivar' \<leftarrow> wr mean_ivar n (cur_ivar + prev_ivar);
        cumulate n_bins (n + 1) (mean_y', mean_ivar')
      } else Some (mean_y, mean_ivar))"
  by pat_completeness auto
termination
  by (relation "measure (\<lambda>(n_bins, n, b). nat (n_bins + 1 - n))") auto

text \<open>Lines 134 and 142-167 for one period.\<close>

definition n_bins_of :: "real \<Rightarrow> real \<Rightarrow> int \<Rightarrow> int" where
  "n_bins_of period bin_duration oversample = c_trunc (period / bin_duration) + oversample"

definition fold_period :: "sample list \<Rightarrow> int \<Rightarrow> real \<Rightarrow> real \<Rightarrow> bins \<Rightarrow> bins option" where
  "fold_period samples oversample bin_duration period b = do {
     let n_bins = n_bins_of period bin_duration oversample;
     b \<leftarrow> clear_bins n_bins 0 b;
     b \<leftarrow> bin_samples period bin_duration samples b;
     b \<leftarrow> wrap_bins oversample 1 (n_bins - oversample) b;
     cumulate n_bins 1 b
   }"

subsection \<open>The duration and phase scan\<close>

text \<open>
  Lines 179-182: the in-transit and out-of-transit sums \<open>(y_in, ivar_in, y_out, ivar_out)\<close>
  of the window of \<open>dur\<close> bins starting at bin \<open>n\<close>, before normalisation.
\<close>

definition window :: "bins \<Rightarrow> real \<Rightarrow> real \<Rightarrow> int \<Rightarrow> int \<Rightarrow> (real \<times> real \<times> real \<times> real) option" where
  "window b sum_y sum_ivar dur n = (case b of (mean_y, mean_ivar) \<Rightarrow> do {
     hi_y \<leftarrow> rd mean_y (n + dur);
     lo_y \<leftarrow> rd mean_y n;
     hi_ivar \<leftarrow> rd mean_ivar (n + dur);
     lo_ivar \<leftarrow> rd mean_ivar n;
     let y_in = hi_y - lo_y;
     let ivar_in = hi_ivar - lo_ivar;
     Some (y_in, ivar_in, sum_y - y_in, sum_ivar - ivar_in)
   })"

text \<open>Line 185: the skip rule.\<close>

definition skipped :: "real \<times> real \<times> real \<times> real \<Rightarrow> bool" where
  "skipped w = (case w of (y_in, ivar_in, y_out, ivar_out) \<Rightarrow>
     ivar_in < DBL_EPSILON \<or> ivar_out < DBL_EPSILON)"

text \<open>Lines 190-191: the weighted mean fluxes in and out of the window.\<close>

definition flux_in :: "real \<times> real \<times> real \<times> real \<Rightarrow> real" where
  "flux_in w = (case w of (y_in, ivar_in, y_out, ivar_out) \<Rightarrow> y_in / ivar_in)"

definition flux_out :: "real \<times> real \<times> real \<times> real \<Rightarrow> real" where
  "flux_out w = (case w of (y_in, ivar_in, y_out, ivar_out) \<Rightarrow> y_out / ivar_out)"

text \<open>Lines 195-196 and 203-204: the call of the evaluator for a window, with a given flag.\<close>

definition evaluate :: "totals \<Rightarrow> int \<Rightarrow> real \<times> real \<times> real \<times> real \<Rightarrow> objvals \<Rightarrow> objvals option" where
  "evaluate s flag w loc = (case (s, w) of ((sum_y2, sum_y, sum_ivar), (y_in, ivar_in, y_out, ivar_out)) \<Rightarrow>
     compute_objective (flux_in w) (flux_out w) ivar_in ivar_out sum_y2 sum_y sum_ivar flag loc)"

text \<open>The comparison \<^verbatim>\<open>objective > best_objective[p]\<close> of line 199.\<close>

fun exceeds :: "real \<Rightarrow> objval \<Rightarrow> bool" where
  "exceeds x MinusInfinity = True"
| "exceeds x (Finite b) = (b < x)"

text \<open>Lines 200-211: the candidate is kept.\<close>

definition accept ::
  "totals \<Rightarrow> int \<Rightarrow> real \<Rightarrow> real \<Rightarrow> int \<Rightarrow> int \<Rightarrow> int \<Rightarrow> real \<times> real \<times> real \<times> real \<Rightarrow>
   objvals \<times> outputs \<Rightarrow> (objvals \<times> outputs) option" where
  "accept s obj_flag bin_duration period p dur n w st = (case st of (loc, out) \<Rightarrow> do {
     bo \<leftarrow> wr (best_objective out) p (Finite (objective loc));
     loc \<leftarrow> evaluate s (if obj_flag = 0 then 1 else 0) w loc;
     bd \<leftarrow> wr (best_depth out) p (depth loc);
     bde \<leftarrow> wr (best_depth_err out) p (depth_err loc);
     bds \<leftarrow> wr (best_depth_snr out) p (depth_snr loc);
     bll \<leftarrow> wr (best_log_like out) p (log_likelihood loc);
     bdu \<leftarrow> wr (best_duration out) p (of_int dur * bin_duration);
     this_duration \<leftarrow> rd bdu p;
     bph \<leftarrow> wr (best_phase out) p (fmod (of_int n * bin_duration + 0.5 * this_duration) period);
     Some (loc, \<lparr>best_objective = bo, best_depth = bd, best_depth_err = bde, best_duration = bdu,
                 best_phase = bph, best_depth_snr = bds, best_log_like = bll\<rparr>)
   })"

text \<open>Lines 178-212: the body of the inner loop, for duration \<open>dur\<close> bins and start bin \<open>n\<close>.\<close>

definition candidate ::
  "bins \<Rightarrow> totals \<Rightarrow> int \<Rightarrow> real \<Rightarrow> real \<Rightarrow> int \<Rightarrow> int \<Rightarrow> int \<Rightarrow>
   objvals \<times> outputs \<Rightarrow> (objvals \<times> outputs) option" where
  "candidate b s obj_flag bin_duration period p dur n st =
     (case (s, st) of ((sum_y2, sum_y, sum_ivar), (loc, out)) \<Rightarrow> do {
        w \<leftarrow> window b sum_y sum_ivar dur n;
        if skipped w then Some (loc, out)
        else do {
          loc \<leftarrow> evaluate s obj_flag w loc;
          if flux_out w \<ge> flux_in w then do {
            best \<leftarrow> rd (best_objective out) p;
            if exceeds (objective loc) best
            then accept s obj_flag bin_duration period p dur n w (loc, out)
            else Some (loc, out)
          } else Some (loc, out)
        }
      })"

text \<open>Lines 177-213: the loop over start bins.\<close>

function scan_phases ::
  "bins \<Rightarrow> totals \<Rightarrow> int \<Rightarrow> real \<Rightarrow> real \<Rightarrow> int \<Rightarrow> int \<Rightarrow> int \<Rightarrow> int \<Rightarrow>
   objvals \<times> outputs \<Rightarrow> (objvals \<times> outputs) option" where
  "scan_phases b s obj_flag bin_duration period p dur n_max n st =
     (if n \<le> n_max then do {
        st' \<leftarrow> candidate b s obj_flag bin_duration period p dur n st;
        scan_phases b s obj_flag bin_duration period p dur n_max (n + 1) st'
      } else Some st)"
  by pat_completeness auto
termination
  by (relation "measure (\<lambda>(b, s, obj_flag, bin_duration, period, p, dur, n_max, n, st).
        nat (n_max + 1 - n))") auto

text \<open>Lines 174-214: the loop over the duration table.\<close>

fun scan_durations ::
  "bins \<Rightarrow> totals \<Rightarrow> int \<Rightarrow> real \<Rightarrow> real \<Rightarrow> int \<Rightarrow> int \<Rightarrow> int list \<Rightarrow>
   objvals \<times> outputs \<Rightarrow> (objvals \<times> outputs) option" where
  "scan_durations b s obj_flag bin_duration period p n_bins [] st = Some st"
| "scan_durations b s obj_flag bin_duration period p n_bins (dur # rest) st = do {
     st' \<leftarrow> scan_phases b s obj_flag bin_duration period p dur (n_bins - dur) 0 st;
     scan_durations b s obj_flag bin_duration period p n_bins rest st'
   }"

subsection \<open>The loop over periods and the entry point\<close>

text \<open>Lines 126-215 for period number \<open>p\<close>.\<close>

definition search_period ::
  "sample list \<Rightarrow> int list \<Rightarrow> int \<Rightarrow> totals \<Rightarrow> int \<Rightarrow> real \<Rightarrow> objvals \<Rightarrow> int \<Rightarrow> real \<Rightarrow>
   bins \<times> outputs \<Rightarrow> (bins \<times> outputs) option" where
  "search_period samples durations_index oversample s obj_flag bin_duration junk p period st =
     (case st of (b, out) \<Rightarrow> do {
        b \<leftarrow> fold_period samples oversample bin_duration period b;
        bo \<leftarrow> wr (best_objective out) p MinusInfinity;
        (loc, out) \<leftarrow> scan_durations b s obj_flag bin_duration period p
                        (n_bins_of period bin_duration oversample) durations_index
                        (junk, out\<lparr>best_objective := bo\<rparr>);
        Some (b, out)
      })"

fun periods_loop ::
  "sample list \<Rightarrow> int list \<Rightarrow> int \<Rightarrow> totals \<Rightarrow> int \<Rightarrow> real \<Rightarrow> objvals \<Rightarrow> int \<Rightarrow> real list \<Rightarrow>
   bins \<times> outputs \<Rightarrow> (bins \<times> outputs) option" where
  "periods_loop samples durations_index oversample s obj_flag bin_duration junk p [] st = Some st"
| "periods_loop samples durations_index oversample s obj_flag bin_duration junk p (period # rest) st = do {
     st' \<leftarrow> search_period samples durations_index oversample s obj_flag bin_duration junk p period st;
     periods_loop samples durations_index oversample s obj_flag bin_duration junk (p + 1) rest st'
   }"

text \<open>
  \<^verbatim>\<open>run_transit_periodogram\<close> (lines 39-223). The result is the returned status with the
  output arrays as the call leaves them. Reading \<^verbatim>\<open>periods[0]\<close> or \<^verbatim>\<open>durations[0]\<close> of an
  empty grid is an access out of bounds; \<^verbatim>\<open>oversample = 0\<close> makes \<^verbatim>\<open>bin_duration\<close> infinite.
\<close>

definition run_transit_periodogram ::
  "env \<Rightarrow> sample list \<Rightarrow> real list \<Rightarrow> real list \<Rightarrow> int \<Rightarrow> int \<Rightarrow> outputs \<Rightarrow> (int \<times> outputs) option" where
  "run_transit_periodogram e samples periods durations oversample obj_flag out =
     (case periods of [] \<Rightarrow> None | p0 # ps \<Rightarrow>
      case minmax ps (p0, p0) of (min_period, max_period) \<Rightarrow>
      if min_period < DBL_EPSILON then Some (1, out)
      else
     (case durations of [] \<Rightarrow> None | d0 # ds \<Rightarrow>
      case minmax ds (d0, d0) of (min_duration, max_duration) \<Rightarrow>
      if max_duration > min_period \<or> min_duration < DBL_EPSILON then Some (2, out)
      else if oversample = 0 then None
      else
        let bin_duration = min_duration / of_int oversample;
            max_n_bins = c_trunc (max_period / bin_duration) + oversample
        in
        if \<not> durations_index_alloc e then Some (- 1, out)
        else
          let durations_index = map (duration_bins bin_duration) durations;
              blocksize = max_n_bins + 1
          in
          (case mean_y_0_alloc e of None \<Rightarrow> Some (- 2, out) | Some mem_y \<Rightarrow>
           case mean_ivar_0_alloc e of None \<Rightarrow> Some (- 3, out) | Some mem_ivar \<Rightarrow>
             let s = accumulate samples (0, 0, 0) in
             do {
               (b, out') \<leftarrow> periods_loop samples durations_index oversample s obj_flag bin_duration
                               (locals_uninit e) 0 periods
                               ((map mem_y [0..<nat blocksize], map mem_ivar [0..<nat blocksize]), out);
               Some (0, out')
             })))"

subsection \<open>The indices of the scratch arrays on the machine\<close>

text \<open>
  The run model above computes with exact reals and unbounded integers. The index
  expressions of the code are repeated here as the machine evaluates them.
  \<^item> A \<^verbatim>\<open>double\<close> is a finite number, a NaN or an infinity.
  \<^item> A division of finite doubles by a nonzero divisor returns \<open>rnd\<close> of the exact quotient:
    the rounding function \<open>rnd\<close> is a parameter, and rounds to the format of \<^verbatim>\<open>double\<close> with
    an unbounded exponent. A quotient whose rounding exceeds the largest \<^verbatim>\<open>double\<close> is delivered
    as an infinity; its rounding is then no \<^verbatim>\<open>int\<close> either, so that the conversion is undefined
    in both readings. A division by zero, of a NaN or of an infinity by a finite number
    returns an infinity or a NaN.
  \<^item> \<^verbatim>\<open>fmod\<close>, \<^verbatim>\<open>fabs\<close>, \<^verbatim>\<open>round\<close> and the conversion of an \<^verbatim>\<open>int\<close> to \<^verbatim>\<open>double\<close> are exact.
  \<^item> An \<^verbatim>\<open>int\<close> has 32 bits. The conversion of a \<^verbatim>\<open>double\<close> to \<^verbatim>\<open>int\<close> truncates, and is
    undefined for a NaN, an infinity and a value whose integral part is not an \<^verbatim>\<open>int\<close>;
    an \<^verbatim>\<open>int\<close> addition or subtraction that overflows is undefined. Undefined is \<open>None\<close>.
\<close>

datatype c_double = Number real | NaN | PosInf | NegInf

definition INT_MAX :: int where
  "INT_MAX = 2 ^ 31 - 1"

definition INT_MIN :: int where
  "INT_MIN = - (2 ^ 31)"

definition int_result :: "int \<Rightarrow> int option" where
  "int_result i = (if INT_MIN \<le> i \<and> i \<le> INT_MAX then Some i else None)"

text \<open>
  \<^verbatim>\<open>fmod(x, y)\<close> and \<^verbatim>\<open>fabs(x)\<close> on all doubles: \<^verbatim>\<open>fmod\<close> is a NaN when \<open>x\<close> is infinite, \<open>y\<close> is
  zero or either is a NaN, and is \<open>x\<close> when \<open>x\<close> is finite and \<open>y\<close> infinite.
\<close>

fun c_fmod :: "c_double \<Rightarrow> c_double \<Rightarrow> c_double" where
  "c_fmod (Number x) (Number y) = (if y = 0 then NaN else Number (fmod x y))"
| "c_fmod (Number x) PosInf = Number x"
| "c_fmod (Number x) NegInf = Number x"
| "c_fmod _ _ = NaN"

fun c_fabs :: "c_double \<Rightarrow> c_double" where
  "c_fabs (Number x) = Number (fabs x)"
| "c_fabs NaN = NaN"
| "c_fabs _ = PosInf"

text \<open>
  \<^verbatim>\<open>(int)(x / y)\<close> for a finite divisor \<open>y\<close>: the quotient is a NaN or an infinity when \<open>y\<close> is
  zero or \<open>x\<close> is not finite.
\<close>

definition cast_quotient :: "(real \<Rightarrow> real) \<Rightarrow> c_double \<Rightarrow> real \<Rightarrow> int option" where
  "cast_quotient rnd x y =
     (case x of
        Number a \<Rightarrow> if y = 0 then None else int_result (c_trunc (rnd (a / y)))
      | _ \<Rightarrow> None)"

text \<open>
  Line 134, \<^verbatim>\<open>(int)(period / bin_duration) + oversample\<close>; line 83 is the same expression
  at \<^verbatim>\<open>max_period\<close>, and line 91 adds 1 to it.
\<close>

definition n_bins_c :: "(real \<Rightarrow> real) \<Rightarrow> c_double \<Rightarrow> real \<Rightarrow> int \<Rightarrow> int option" where
  "n_bins_c rnd period bin_duration oversample = do {
     q \<leftarrow> cast_quotient rnd period bin_duration;
     int_result (q + oversample)
   }"

definition blocksize_c :: "(real \<Rightarrow> real) \<Rightarrow> real list \<Rightarrow> real \<Rightarrow> int \<Rightarrow> int option" where
  "blocksize_c rnd periods bin_duration oversample = do {
     max_n_bins \<leftarrow> n_bins_c rnd (Number (Max (set periods))) bin_duration oversample;
     int_result (max_n_bins + 1)
   }"

text \<open>Lines 87-88.\<close>

definition duration_bins_c :: "(real \<Rightarrow> real) \<Rightarrow> real \<Rightarrow> c_double \<Rightarrow> int option" where
  "duration_bins_c rnd bin_duration d =
     (case d of
        Number a \<Rightarrow>
          if bin_duration = 0 then None
          else do {
            i \<leftarrow> int_result (c_round (rnd (a / bin_duration)));
            Some (if i \<le> 0 then 1 else i)
          }
      | _ \<Rightarrow> None)"

text \<open>Line 147.\<close>

definition bin_index_c :: "(real \<Rightarrow> real) \<Rightarrow> c_double \<Rightarrow> real \<Rightarrow> c_double \<Rightarrow> int option" where
  "bin_index_c rnd period bin_duration t = do {
     q \<leftarrow> cast_quotient rnd (c_fabs (c_fmod t period)) bin_duration;
     int_result (q + 1)
   }"

text \<open>Lines 176-180 for one duration: the indices \<open>n + dur\<close> and \<open>n\<close> for \<open>n = 0..n_max\<close>.\<close>

definition window_indices :: "int \<Rightarrow> int \<Rightarrow> int list option" where
  "window_indices n_bins dur = do {
     n_max \<leftarrow> int_result (n_bins - dur);
     Some (concat (map (\<lambda>n. [n + dur, n]) [0..n_max]))
   }"

text \<open>
  Every index at which lines 142-180 read or write \<open>mean_y\<close> and \<open>mean_ivar\<close> for one
  period, in program order: clearing (\<open>n = 0..n_bins\<close>, with the bound \<open>n_bins + 1\<close> of line
  142), binning, wrap-around (source \<open>n\<close> and destination \<open>ind\<close>, which starts at
  \<open>n_bins - oversample\<close>; \<open>n\<close> is incremented to \<open>oversample + 1\<close>), cumulative sums (\<open>n\<close> and
  \<open>n - 1\<close>) and the windows of every duration. The result is \<open>None\<close> when one of the \<^verbatim>\<open>int\<close>
  expressions is undefined.
\<close>

definition scratch_indices ::
  "(real \<Rightarrow> real) \<Rightarrow> c_double list \<Rightarrow> c_double list \<Rightarrow> int \<Rightarrow> real \<Rightarrow> c_double \<Rightarrow> int list option" where
  "scratch_indices rnd ts durations oversample bin_duration period = do {
     n_bins \<leftarrow> n_bins_c rnd period bin_duration oversample;
     limit \<leftarrow> int_result (n_bins + 1);
     binned \<leftarrow> those (map (bin_index_c rnd period bin_duration) ts);
     ind \<leftarrow> int_result (n_bins - oversample);
     last_n \<leftarrow> int_result (oversample + 1);
     durs \<leftarrow> those (map (duration_bins_c rnd bin_duration) durations);
     windows \<leftarrow> those (map (window_indices n_bins) durs);
     Some ([0..n_bins] @ binned @ concat (map (\<lambda>n. [n, ind + (n - 1)]) [1..oversample]) @
           concat (map (\<lambda>n. [n, n - 1]) [1..n_bins]) @ concat windows)
   }"

subsection \<open>Vocabulary of the statements\<close>

text \<open>The seven results of period number \<open>q\<close>, and the lengths of the seven output arrays.\<close>

definition result_at :: "outputs \<Rightarrow> nat \<Rightarrow> objval \<times> real \<times> real \<times> real \<times> real \<times> real \<times> real" where
  "result_at out q = (best_objective out ! q, best_depth out ! q, best_depth_err out ! q,
     best_duration out ! q, best_phase out ! q, best_depth_snr out ! q, best_log_like out ! q)"

definition sizes :: "outputs \<Rightarrow> nat list" where
  "sizes out = [length (best_objective out), length (best_depth out), length (best_depth_err out),
     length (best_duration out), length (best_phase out), length (best_depth_snr out),
     length (best_log_like out)]"

text \<open>
  Range validation succeeds (lines 68-79 return neither 1 nor 2), every allocation
  succeeds, and the output arrays have room for \<open>n\<close> periods.
\<close>

definition valid_grids :: "real list \<Rightarrow> real list \<Rightarrow> bool" where
  "valid_grids periods durations \<longleftrightarrow>
     periods \<noteq> [] \<and> durations \<noteq> [] \<and> DBL_EPSILON \<le> Min (set periods) \<and>
     Max (set durations) \<le> Min (set periods) \<and> DBL_EPSILON \<le> Min (set durations)"

definition allocations_succeed :: "env \<Rightarrow> bool" where
  "allocations_succeed e \<longleftrightarrow>
     durations_index_alloc e \<and> mean_y_0_alloc e \<noteq> None \<and> mean_ivar_0_alloc e \<noteq> None"

definition outputs_fit :: "nat \<Rightarrow> outputs \<Rightarrow> bool" where
  "outputs_fit n out \<longleftrightarrow> list_all (\<lambda>l. n \<le> l) (sizes out)"

text \<open>The bin width of line 82 and the sums of lines 115-122, as the run derives them.\<close>

definition bin_duration_of :: "real list \<Rightarrow> int \<Rightarrow> real" where
  "bin_duration_of durations oversample = Min (set durations) / of_int oversample"

definition max_n_bins_of :: "real list \<Rightarrow> real list \<Rightarrow> int \<Rightarrow> int" where
  "max_n_bins_of periods durations oversample =
     c_trunc (Max (set periods) / bin_duration_of durations oversample) + oversample"

text \<open>
  The candidates of one period in the order lines 174-177 visit them: for each entry
  \<open>dur\<close> of the duration table, in table order, the start bins \<open>0..n_bins - dur\<close>. A
  candidate is the pair \<open>(dur, n)\<close>.
\<close>

definition scan_order :: "int \<Rightarrow> int list \<Rightarrow> (int \<times> int) list" where
  "scan_order n_bins durs = concat (map (\<lambda>dur. map (Pair dur) [0..n_bins - dur]) durs)"

text \<open>
  The objective of a candidate that passes the skip rule and is a dip; \<open>None\<close> for a
  candidate that is skipped or is a brightening. (The objective does not depend on the
  locals passed to the evaluator.)
\<close>

definition dip_score :: "bins \<Rightarrow> totals \<Rightarrow> int \<Rightarrow> int \<times> int \<Rightarrow> real option" where
  "dip_score b s obj_flag c = (case (s, c) of ((sum_y2, sum_y, sum_ivar), (dur, n)) \<Rightarrow>
     case window b sum_y sum_ivar dur n of None \<Rightarrow> None | Some w \<Rightarrow>
       if skipped w \<or> \<not> flux_in w \<le> flux_out w then None
       else map_option objective (evaluate s obj_flag w
              \<lparr>objective = 0, log_likelihood = 0, depth = 0, depth_err = 0, depth_snr = 0\<rparr>))"

text \<open>The body of the inner loop run over a list of candidates.\<close>

fun run_candidates ::
  "bins \<Rightarrow> totals \<Rightarrow> int \<Rightarrow> real \<Rightarrow> real \<Rightarrow> int \<Rightarrow> (int \<times> int) list \<Rightarrow>
   objvals \<times> outputs \<Rightarrow> (objvals \<times> outputs) option" where
  "run_candidates b s obj_flag bin_duration period p [] st = Some st"
| "run_candidates b s obj_flag bin_duration period p ((dur, n) # cs) st = do {
     st' \<leftarrow> candidate b s obj_flag bin_duration period p dur n st;
     run_candidates b s obj_flag bin_duration period p cs st'
   }"

text \<open>
  Candidate number \<open>i\<close> of the list \<open>cs\<close> is the one the outputs of period \<open>p\<close> record: its
  score \<open>B\<close> is \<open>best_objective[p]\<close>, its duration and mid-transit phase are recorded, every
  candidate before it scores strictly less, and no candidate scores more.
\<close>

definition retained ::
  "bins \<Rightarrow> totals \<Rightarrow> int \<Rightarrow> real \<Rightarrow> real \<Rightarrow> int \<Rightarrow> (int \<times> int) list \<Rightarrow> outputs \<Rightarrow> nat \<Rightarrow> real \<Rightarrow> bool" where
  "retained b s obj_flag bin_duration period p cs out i B \<longleftrightarrow>
     i < length cs \<and> dip_score b s obj_flag (cs ! i) = Some B \<and>
     best_objective out ! nat p = Finite B \<and>
     best_duration out ! nat p = of_int (fst (cs ! i)) * bin_duration \<and>
     best_phase out ! nat p =
       fmod (of_int (snd (cs ! i)) * bin_duration + of_int (fst (cs ! i)) * bin_duration / 2) period \<and>
     (\<forall>j<i. \<forall>x. dip_score b s obj_flag (cs ! j) = Some x \<longrightarrow> x < B) \<and>
     (\<forall>j<length cs. \<forall>x. dip_score b s obj_flag (cs ! j) = Some x \<longrightarrow> x \<le> B)"

subsection \<open>Example inputs\<close>

text \<open>An environment where every allocation succeeds, and output arrays of \<open>n\<close> zeros.\<close>

definition env_ok :: env where
  "env_ok = \<lparr>durations_index_alloc = True, mean_y_0_alloc = Some (\<lambda>i. 0),
     mean_ivar_0_alloc = Some (\<lambda>i. 0),
     locals_uninit = \<lparr>objective = 0, log_likelihood = 0, depth = 0, depth_err = 0, depth_snr = 0\<rparr>\<rparr>"

definition outputs_zero :: "nat \<Rightarrow> outputs" where
  "outputs_zero n = \<lparr>best_objective = replicate n (Finite 0), best_depth = replicate n 0,
     best_depth_err = replicate n 0, best_duration = replicate n 0, best_phase = replicate n 0,
     best_depth_snr = replicate n 0, best_log_like = replicate n 0\<rparr>"

declare clear_bins.simps [simp del] wrap_bins.simps [simp del] cumulate.simps [simp del]
  scan_phases.simps [simp del]

section \<open>The objective evaluator: results\<close>

lemma compute_objective_loglike:
  assumes "obj_flag \<noteq> 0"
  shows "compute_objective y_in y_out ivar_in ivar_out sum_y2 sum_y sum_ivar obj_flag out =
    Some (out\<lparr>log_likelihood :=
              - 0.5 * (sum_y2 - 2 * y_out * sum_y + y_out * y_out * sum_ivar
                        - (y_in - y_out) * (y_in - y_out) * ivar_in),
             objective :=
              - 0.5 * (sum_y2 - 2 * y_out * sum_y + y_out * y_out * sum_ivar
                        - (y_in - y_out) * (y_in - y_out) * ivar_in)\<rparr>)"
  using assms by (simp add: compute_objective_def Let_def)

lemma compute_objective_depth:
  assumes "0 < ivar_in" and "0 < ivar_out"
  shows "compute_objective y_in y_out ivar_in ivar_out sum_y2 sum_y sum_ivar 0 out =
    Some (out\<lparr>depth := y_out - y_in,
             depth_err := sqrt (1 / ivar_in + 1 / ivar_out),
             depth_snr := (y_out - y_in) / sqrt (1 / ivar_in + 1 / ivar_out),
             objective := (y_out - y_in) / sqrt (1 / ivar_in + 1 / ivar_out)\<rparr>)"
proof -
  have "0 < 1 / ivar_in + 1 / ivar_out"
    using assms by (simp add: add_pos_pos)
  then show ?thesis
    using assms by (simp add: compute_objective_def Let_def)
qed

text \<open>
  C2. For \<open>ivar_in > 0\<close> and \<open>ivar_out > 0\<close>: with a nonzero flag the evaluator sets
  \<open>log_likelihood\<close> to \<open>-0.5 (sum_y2 - 2 y_out sum_y + y_out\<^sup>2 sum_ivar - (y_in - y_out)\<^sup>2 ivar_in)\<close>
  and \<open>objective\<close> to that value; with flag 0 it sets \<open>depth = y_out - y_in\<close>,
  \<open>depth_err = sqrt (1/ivar_in + 1/ivar_out)\<close>, \<open>depth_snr = depth / depth_err\<close> and
  \<open>objective = depth_snr\<close>.
\<close>

theorem compute_objective_formulas:
  assumes "0 < ivar_in" and "0 < ivar_out"
  shows "\<exists>r. compute_objective y_in y_out ivar_in ivar_out sum_y2 sum_y sum_ivar obj_flag out = Some r \<and>
    (if obj_flag \<noteq> 0
     then log_likelihood r =
            - 0.5 * (sum_y2 - 2 * y_out * sum_y + y_out\<^sup>2 * sum_ivar - (y_in - y_out)\<^sup>2 * ivar_in) \<and>
          objective r = log_likelihood r
     else depth r = y_out - y_in \<and>
          depth_err r = sqrt (1 / ivar_in + 1 / ivar_out) \<and>
          depth_snr r = depth r / depth_err r \<and>
          objective r = depth_snr r)"
proof (cases "obj_flag = 0")
  case True
  then show ?thesis
    using compute_objective_depth [OF assms] by simp
next
  case False
  then show ?thesis
    using compute_objective_loglike [OF False] by (simp add: power2_eq_square)
qed

theorem compute_objective_formulas_witness:
  "(0::real) < 4 \<and> (0::real) < 4 \<and>
   (\<exists>r. compute_objective 1 3 4 4 0 0 0 0
           \<lparr>objective = 0, log_likelihood = 0, depth = 0, depth_err = 0, depth_snr = 0\<rparr> = Some r \<and>
        depth r = 2 \<and> objective r = depth_snr r)"
  using compute_objective_formulas [of 4 4 1 3 0 0 0 0
    "\<lparr>objective = 0, log_likelihood = 0, depth = 0, depth_err = 0, depth_snr = 0\<rparr>"]
  by auto

text \<open>
  C10. With a nonzero flag the evaluator writes only \<open>log_likelihood\<close> and \<open>objective\<close>:
  \<open>depth\<close>, \<open>depth_err\<close> and \<open>depth_snr\<close> keep their values. With flag 0 it writes only
  \<open>depth\<close>, \<open>depth_err\<close>, \<open>depth_snr\<close> and \<open>objective\<close>: \<open>log_likelihood\<close> keeps its value.
\<close>

theorem compute_objective_frame:
  assumes "compute_objective y_in y_out ivar_in ivar_out sum_y2 sum_y sum_ivar obj_flag out = Some r"
  shows "(obj_flag \<noteq> 0 \<longrightarrow>
            depth r = depth out \<and> depth_err r = depth_err out \<and> depth_snr r = depth_snr out) \<and>
         (obj_flag = 0 \<longrightarrow> log_likelihood r = log_likelihood out)"
  using assms by (auto simp: compute_objective_def Let_def split: if_splits)

theorem compute_objective_frame_witness:
  "depth_snr (the (compute_objective 1 3 4 4 0 0 0 1
      \<lparr>objective = 0, log_likelihood = 0, depth = 5, depth_err = 6, depth_snr = 7\<rparr>)) = 7 \<and>
   log_likelihood (the (compute_objective 1 3 4 4 0 0 0 0
      \<lparr>objective = 0, log_likelihood = 8, depth = 5, depth_err = 6, depth_snr = 7\<rparr>)) = 8"
proof -
  obtain r where r: "compute_objective 1 3 4 4 0 0 0 1
      \<lparr>objective = 0, log_likelihood = 0, depth = 5, depth_err = 6, depth_snr = 7\<rparr> = Some r"
    by (simp add: compute_objective_def Let_def)
  obtain s where s: "compute_objective 1 3 4 4 0 0 0 0
      \<lparr>objective = 0, log_likelihood = 8, depth = 5, depth_err = 6, depth_snr = 7\<rparr> = Some s"
    by (simp add: compute_objective_def Let_def)
  show ?thesis
    using compute_objective_frame [OF r] compute_objective_frame [OF s] r s by simp
qed

section \<open>Range validation\<close>

lemma minmax_Min_Max:
  "minmax xs (mn, mx) = (Min (insert mn (set xs)), Max (insert mx (set xs)))"
proof (induction xs arbitrary: mn mx)
  case Nil
  show ?case by simp
next
  case (Cons x xs)
  have mn: "Min (insert (if x < mn then x else mn) (set xs)) = Min (insert mn (insert x (set xs)))"
    by (cases "set xs = {}") (auto simp: Min_insert2 min_def insert_commute)
  have mx: "Max (insert (if mx < x then x else mx) (set xs)) = Max (insert mx (insert x (set xs)))"
    by (cases "set xs = {}") (auto simp: max_def insert_commute)
  show ?case
    by (simp add: Cons.IH mn mx)
qed

lemma minmax_grid:
  "minmax xs (x, x) = (Min (set (x # xs)), Max (set (x # xs)))"
  by (simp add: minmax_Min_Max)

text \<open>
  C3. The status is 1 exactly when the minimum of the period grid is below
  \<open>DBL_EPSILON\<close>; otherwise it is 2 exactly when the maximum of the duration grid exceeds
  the minimum period or the minimum duration is below \<open>DBL_EPSILON\<close>; and on a non-zero
  status the seven output arrays are returned as they were passed in.
\<close>

theorem range_validation:
  assumes "periods \<noteq> []"
  shows "((\<exists>out'. run_transit_periodogram e samples periods durations oversample obj_flag out = Some (1, out'))
            \<longleftrightarrow> Min (set periods) < DBL_EPSILON) \<and>
         (durations \<noteq> [] \<longrightarrow>
          ((\<exists>out'. run_transit_periodogram e samples periods durations oversample obj_flag out = Some (2, out'))
            \<longleftrightarrow> \<not> Min (set periods) < DBL_EPSILON \<and>
                (Max (set durations) > Min (set periods) \<or> Min (set durations) < DBL_EPSILON))) \<and>
         (\<forall>status out'. run_transit_periodogram e samples periods durations oversample obj_flag out = Some (status, out')
            \<longrightarrow> status \<noteq> 0 \<longrightarrow> out' = out)"
proof -
  obtain p0 ps where periods: "periods = p0 # ps"
    using assms by (cases periods) auto
  have one: "(\<exists>out'. run_transit_periodogram e samples periods durations oversample obj_flag out = Some (1, out'))
            \<longleftrightarrow> Min (set periods) < DBL_EPSILON"
    unfolding run_transit_periodogram_def periods
    by (auto simp: minmax_grid Let_def split: list.splits option.splits Option.bind_splits)
  have two: "(\<exists>out'. run_transit_periodogram e samples periods durations oversample obj_flag out = Some (2, out'))
            \<longleftrightarrow> \<not> Min (set periods) < DBL_EPSILON \<and>
                (Max (set durations) > Min (set periods) \<or> Min (set durations) < DBL_EPSILON)"
    if ne: "durations \<noteq> []"
  proof -
    obtain d0 ds where durations: "durations = d0 # ds"
      using ne by (cases durations) auto
    show ?thesis
      unfolding run_transit_periodogram_def periods durations
      by (auto simp: minmax_grid Let_def split: option.splits Option.bind_splits)
  qed
  have frame: "out' = out"
    if "run_transit_periodogram e samples periods durations oversample obj_flag out = Some (status, out')"
      and "status \<noteq> 0" for status out'
    using that unfolding run_transit_periodogram_def periods
    by (auto simp: Let_def split: list.splits option.splits if_splits prod.splits Option.bind_splits)
  show ?thesis
    using one two frame by blast
qed

theorem range_validation_witness:
  "[0::real] \<noteq> [] \<and> [2::real] \<noteq> [] \<and>
   run_transit_periodogram env_ok [] [0] [1] 1 0 (outputs_zero 1) = Some (1, outputs_zero 1) \<and>
   run_transit_periodogram env_ok [] [1] [2] 1 0 (outputs_zero 1) = Some (2, outputs_zero 1)"
  using range_validation [of "[0]" env_ok "[]" "[1]" 1 0 "outputs_zero 1"]
    range_validation [of "[1]" env_ok "[]" "[2]" 1 0 "outputs_zero 1"]
  by (auto simp: DBL_EPSILON_def)

section \<open>Array access\<close>

lemma rd_Some: "rd xs i = Some v \<longleftrightarrow> 0 \<le> i \<and> i < int (length xs) \<and> v = xs ! nat i"
  by (auto simp: rd_def)

lemma wr_Some: "wr xs i v = Some ys \<longleftrightarrow> 0 \<le> i \<and> i < int (length xs) \<and> ys = xs[nat i := v]"
  by (auto simp: wr_def)

lemma rd_in_range: "0 \<le> i \<Longrightarrow> i < int (length xs) \<Longrightarrow> rd xs i = Some (xs ! nat i)"
  by (simp add: rd_def)

lemma wr_in_range: "0 \<le> i \<Longrightarrow> i < int (length xs) \<Longrightarrow> wr xs i v = Some (xs[nat i := v])"
  by (simp add: wr_def)

section \<open>One candidate window\<close>

lemma evaluate_objective_indep:
  assumes "evaluate s flag w loc = Some r" and "evaluate s flag w loc' = Some r'"
  shows "objective r = objective r'"
  using assms
  by (auto simp: evaluate_def compute_objective_def Let_def split: prod.splits if_splits)

lemma evaluate_defined:
  assumes "\<not> skipped w"
  shows "\<exists>r. evaluate s flag w loc = Some r"
proof -
  obtain y_in ivar_in y_out ivar_out where w: "w = (y_in, ivar_in, y_out, ivar_out)"
    by (cases w) auto
  obtain sum_y2 sum_y sum_ivar where s: "s = (sum_y2, sum_y, sum_ivar)"
    by (cases s) auto
  have pos: "0 < ivar_in" "0 < ivar_out"
    using assms by (auto simp: skipped_def w DBL_EPSILON_def)
  then have "0 < 1 / ivar_in + 1 / ivar_out"
    by (simp add: add_pos_pos)
  with pos show ?thesis
    by (simp add: evaluate_def w s compute_objective_def Let_def)
qed

lemma accept_Some:
  assumes "accept s obj_flag bin_duration period p dur n w (loc, out) = Some (loc', out')"
  shows "evaluate s (if obj_flag = 0 then 1 else 0) w loc = Some loc' \<and>
    out' = \<lparr>best_objective = (best_objective out)[nat p := Finite (objective loc)],
            best_depth = (best_depth out)[nat p := depth loc'],
            best_depth_err = (best_depth_err out)[nat p := depth_err loc'],
            best_duration = (best_duration out)[nat p := of_int dur * bin_duration],
            best_phase = (best_phase out)[nat p :=
               fmod (of_int n * bin_duration + 0.5 * (of_int dur * bin_duration)) period],
            best_depth_snr = (best_depth_snr out)[nat p := depth_snr loc'],
            best_log_like = (best_log_like out)[nat p := log_likelihood loc']\<rparr> \<and>
    0 \<le> p \<and> p < int (length (best_objective out)) \<and> p < int (length (best_depth out)) \<and>
    p < int (length (best_depth_err out)) \<and> p < int (length (best_duration out)) \<and>
    p < int (length (best_phase out)) \<and> p < int (length (best_depth_snr out)) \<and>
    p < int (length (best_log_like out))"
  using assms unfolding accept_def
  by (auto simp: Option.bind_eq_Some_conv rd_Some wr_Some)

lemma candidate_Some:
  assumes "candidate b (sum_y2, sum_y, sum_ivar) obj_flag bin_duration period p dur n (loc, out) = Some (loc', out')"
  shows "\<exists>w. window b sum_y sum_ivar dur n = Some w \<and>
    (if skipped w then loc' = loc \<and> out' = out
     else \<exists>r. evaluate (sum_y2, sum_y, sum_ivar) obj_flag w loc = Some r \<and>
       (if flux_in w \<le> flux_out w
        then \<exists>best. rd (best_objective out) p = Some best \<and>
          (if exceeds (objective r) best
           then accept (sum_y2, sum_y, sum_ivar) obj_flag bin_duration period p dur n w (r, out) = Some (loc', out')
           else loc' = r \<and> out' = out)
        else loc' = r \<and> out' = out))"
proof -
  from assms obtain w where w: "window b sum_y sum_ivar dur n = Some w"
    and rest: "(if skipped w then Some (loc, out)
      else evaluate (sum_y2, sum_y, sum_ivar) obj_flag w loc \<bind> (\<lambda>loc.
        if flux_in w \<le> flux_out w
        then rd (best_objective out) p \<bind> (\<lambda>best.
          if exceeds (objective loc) best
          then accept (sum_y2, sum_y, sum_ivar) obj_flag bin_duration period p dur n w (loc, out)
          else Some (loc, out))
        else Some (loc, out))) = Some (loc', out')"
    by (auto simp: candidate_def Option.bind_eq_Some_conv)
  show ?thesis
  proof (cases "skipped w")
    case True
    with w rest show ?thesis by simp
  next
    case False
    with rest obtain r where r: "evaluate (sum_y2, sum_y, sum_ivar) obj_flag w loc = Some r"
      and rest2: "(if flux_in w \<le> flux_out w
        then rd (best_objective out) p \<bind> (\<lambda>best.
          if exceeds (objective r) best
          then accept (sum_y2, sum_y, sum_ivar) obj_flag bin_duration period p dur n w (r, out)
          else Some (r, out))
        else Some (r, out)) = Some (loc', out')"
      by (auto simp: Option.bind_eq_Some_conv)
    show ?thesis
    proof (cases "flux_in w \<le> flux_out w")
      case dip: True
      with rest2 obtain best where best: "rd (best_objective out) p = Some best"
        and rest3: "(if exceeds (objective r) best
          then accept (sum_y2, sum_y, sum_ivar) obj_flag bin_duration period p dur n w (r, out)
          else Some (r, out)) = Some (loc', out')"
        by (auto simp: Option.bind_eq_Some_conv)
      show ?thesis
        using w False r dip best rest3 by (cases "exceeds (objective r) best") auto
    next
      case nodip: False
      with w False r rest2 show ?thesis by auto
    qed
  qed
qed


lemma both_evaluations:
  assumes first: "evaluate (sum_y2, sum_y, sum_ivar) obj_flag (y_in, ivar_in, y_out, ivar_out) loc = Some r"
    and second: "evaluate (sum_y2, sum_y, sum_ivar) (if obj_flag = 0 then 1 else 0)
                   (y_in, ivar_in, y_out, ivar_out) r = Some r'"
  shows "depth r' = y_out / ivar_out - y_in / ivar_in"
    and "depth_err r' = sqrt (1 / ivar_in + 1 / ivar_out)"
    and "depth_snr r' = (y_out / ivar_out - y_in / ivar_in) / sqrt (1 / ivar_in + 1 / ivar_out)"
    and "log_likelihood r' =
           - 0.5 * (sum_y2 - 2 * (y_out / ivar_out) * sum_y + (y_out / ivar_out)\<^sup>2 * sum_ivar
                     - (y_in / ivar_in - y_out / ivar_out)\<^sup>2 * ivar_in)"
    and "objective r = (if obj_flag \<noteq> 0 then log_likelihood r' else depth_snr r')"
  using assms
  by (auto simp: evaluate_def flux_in_def flux_out_def compute_objective_def Let_def power2_eq_square
           split: if_splits)

text \<open>
  C7. When a candidate is accepted, the evaluator is called a second time with the
  opposite flag, so that whatever \<open>obj_flag\<close> is, the outputs of period \<open>p\<close> hold the
  depth, its error and signal-to-noise ratio and the log likelihood of the accepted
  window; the recorded duration is \<open>dur * bin_duration\<close> and the recorded phase is
  \<open>fmod (n * bin_duration + duration / 2) period\<close>.
\<close>

theorem accepted_candidate_record:
  assumes step: "candidate b (sum_y2, sum_y, sum_ivar) obj_flag bin_duration period p dur n (loc, out) =
                   Some (loc', out')"
    and w: "window b sum_y sum_ivar dur n = Some (y_in, ivar_in, y_out, ivar_out)"
    and r: "evaluate (sum_y2, sum_y, sum_ivar) obj_flag (y_in, ivar_in, y_out, ivar_out) loc = Some r"
    and best: "rd (best_objective out) p = Some best"
    and accepted: "\<not> skipped (y_in, ivar_in, y_out, ivar_out)"
      "y_in / ivar_in \<le> y_out / ivar_out" "exceeds (objective r) best"
  shows "best_objective out' ! nat p = Finite (objective r) \<and>
         best_depth out' ! nat p = y_out / ivar_out - y_in / ivar_in \<and>
         best_depth_err out' ! nat p = sqrt (1 / ivar_in + 1 / ivar_out) \<and>
         best_depth_snr out' ! nat p = best_depth out' ! nat p / best_depth_err out' ! nat p \<and>
         best_log_like out' ! nat p =
           - 0.5 * (sum_y2 - 2 * (y_out / ivar_out) * sum_y + (y_out / ivar_out)\<^sup>2 * sum_ivar
                     - (y_in / ivar_in - y_out / ivar_out)\<^sup>2 * ivar_in) \<and>
         objective r = (if obj_flag \<noteq> 0 then best_log_like out' ! nat p else best_depth_snr out' ! nat p) \<and>
         best_duration out' ! nat p = of_int dur * bin_duration \<and>
         best_phase out' ! nat p = fmod (of_int n * bin_duration + best_duration out' ! nat p / 2) period"
proof -
  let ?w = "(y_in, ivar_in, y_out, ivar_out)"
  have dip: "flux_in ?w \<le> flux_out ?w"
    using accepted(2) by (simp add: flux_in_def flux_out_def)
  from candidate_Some [OF step] w r best accepted(1,3) dip
  have acc: "accept (sum_y2, sum_y, sum_ivar) obj_flag bin_duration period p dur n ?w (r, out) = Some (loc', out')"
    by auto
  note a = accept_Some [OF acc]
  from a have second: "evaluate (sum_y2, sum_y, sum_ivar) (if obj_flag = 0 then 1 else 0) ?w r = Some loc'"
    by blast
  from a have out': "out' = \<lparr>best_objective = (best_objective out)[nat p := Finite (objective r)],
            best_depth = (best_depth out)[nat p := depth loc'],
            best_depth_err = (best_depth_err out)[nat p := depth_err loc'],
            best_duration = (best_duration out)[nat p := of_int dur * bin_duration],
            best_phase = (best_phase out)[nat p :=
               fmod (of_int n * bin_duration + 0.5 * (of_int dur * bin_duration)) period],
            best_depth_snr = (best_depth_snr out)[nat p := depth_snr loc'],
            best_log_like = (best_log_like out)[nat p := log_likelihood loc']\<rparr>"
    by blast
  from a have len: "nat p < length (best_objective out)" "nat p < length (best_depth out)"
    "nat p < length (best_depth_err out)" "nat p < length (best_duration out)"
    "nat p < length (best_phase out)" "nat p < length (best_depth_snr out)"
    "nat p < length (best_log_like out)"
    by auto
  note ev = both_evaluations [OF r second]
  show ?thesis
    unfolding out' using len ev by simp
qed

theorem accepted_candidate_record_witness:
  "\<exists>loc' out'. candidate ([0, 1, 6, 7, 7], [0, 1, 2, 3, 3]) (30, 8, 3) 0 1 3 0 1 0
       (locals_uninit env_ok, outputs_zero 1) = Some (loc', out') \<and>
     best_depth out' ! 0 = 5 / 2 \<and> best_log_like out' ! 0 = - 9 / 4 \<and>
     best_duration out' ! 0 = 1 \<and> best_phase out' ! 0 = 1 / 2"
proof -
  let ?b = "([0, 1, 6, 7, 7], [0, 1, 2, 3, 3]) :: bins"
  let ?r = "\<lparr>objective = (5 / 2) / sqrt (3 / 2), log_likelihood = 0, depth = 5 / 2,
             depth_err = sqrt (3 / 2), depth_snr = (5 / 2) / sqrt (3 / 2)\<rparr>"
  have w: "window ?b 8 3 1 0 = Some (1, 1, 7, 2)"
    by (simp add: window_def rd_def)
  have r: "evaluate (30, 8, 3) 0 (1, 1, 7, 2) (locals_uninit env_ok) = Some ?r"
    by (simp add: evaluate_def flux_in_def flux_out_def compute_objective_def env_ok_def)
  have best: "rd (best_objective (outputs_zero 1)) 0 = Some (Finite 0)"
    by (simp add: rd_def outputs_zero_def)
  have acc: "\<not> skipped (1, 1, 7, 2)" "(1::real) / 1 \<le> 7 / 2" "exceeds (objective ?r) (Finite 0)"
    by (simp_all add: skipped_def DBL_EPSILON_def)
  obtain loc' out' where step: "candidate ?b (30, 8, 3) 0 1 3 0 1 0
       (locals_uninit env_ok, outputs_zero 1) = Some (loc', out')"
    using w r best acc
    by (auto simp: candidate_def flux_in_def flux_out_def accept_def rd_def wr_def outputs_zero_def
        evaluate_def compute_objective_def)
  from accepted_candidate_record [OF step w r best acc] step
  show ?thesis
    by (simp add: fmod_def c_trunc_def power2_eq_square)
qed

section \<open>Arithmetic of the bin indices\<close>

lemma c_trunc_nonneg: "0 \<le> x \<Longrightarrow> 0 \<le> c_trunc x"
  by (simp add: c_trunc_def)

lemma c_trunc_mono: "0 \<le> x \<Longrightarrow> x \<le> y \<Longrightarrow> c_trunc x \<le> c_trunc y"
  by (simp add: c_trunc_def floor_mono)

lemma fmod_bound:
  assumes "0 < P"
  shows "fabs (fmod t P) < P"
proof -
  let ?q = "t / P"
  have t: "t = ?q * P"
    using assms by simp
  have "fmod t P = (?q - of_int (c_trunc ?q)) * P"
    using assms by (simp add: fmod_def algebra_simps)
  moreover have "\<bar>?q - of_int (c_trunc ?q)\<bar> < 1"
    unfolding c_trunc_def by (auto simp: abs_less_iff) linarith+
  ultimately have "\<bar>fmod t P\<bar> = \<bar>?q - of_int (c_trunc ?q)\<bar> * P"
    using assms by (simp add: abs_mult)
  also have "\<dots> < 1 * P"
    using \<open>\<bar>?q - of_int (c_trunc ?q)\<bar> < 1\<close> assms by (intro mult_strict_right_mono) simp_all
  finally show ?thesis
    by (simp add: fabs_def)
qed

lemma bin_index_bounds:
  assumes "0 < period" and "0 < bin_duration"
  shows "1 \<le> bin_index period bin_duration t"
    and "bin_index period bin_duration t \<le> c_trunc (period / bin_duration) + 1"
proof -
  have nonneg: "0 \<le> fabs (fmod t period) / bin_duration"
    using assms by (simp add: fabs_def)
  then show "1 \<le> bin_index period bin_duration t"
    using c_trunc_nonneg [OF nonneg] by (simp add: bin_index_def)
  have "fabs (fmod t period) / bin_duration \<le> period / bin_duration"
    using fmod_bound [OF assms(1), of t] assms(2) by (simp add: divide_right_mono)
  from c_trunc_mono [OF nonneg this]
  show "bin_index period bin_duration t \<le> c_trunc (period / bin_duration) + 1"
    by (simp add: bin_index_def)
qed

section \<open>The scratch arrays of one period\<close>

lemma clear_bins_length:
  assumes "clear_bins n_bins n (mean_y, mean_ivar) = Some (mean_y', mean_ivar')"
  shows "length mean_y' = length mean_y \<and> length mean_ivar' = length mean_ivar"
  using assms
proof (induction n_bins n "(mean_y, mean_ivar)" arbitrary: mean_y mean_ivar rule: clear_bins.induct)
  case (1 n_bins n mean_y mean_ivar)
  show ?case
  proof (cases "n < n_bins + 1")
    case True
    with "1.prems" obtain y1 i1 where
      y1: "wr mean_y n 0 = Some y1" and i1: "wr mean_ivar n 0 = Some i1" and
      rest: "clear_bins n_bins (n + 1) (y1, i1) = Some (mean_y', mean_ivar')"
      by (auto simp: clear_bins.simps [of n_bins n] Option.bind_eq_Some_conv)
    from "1.hyps" [OF True _ _ rest] y1 i1 show ?thesis
      by (auto simp: wr_Some)
  next
    case False
    with "1.prems" show ?thesis
      by (simp add: clear_bins.simps [of n_bins n])
  qed
qed

lemma clear_bins_defined:
  assumes "0 \<le> n" and "n_bins < int (length mean_y)" and "n_bins < int (length mean_ivar)"
  shows "\<exists>b. clear_bins n_bins n (mean_y, mean_ivar) = Some b"
  using assms
proof (induction n_bins n "(mean_y, mean_ivar)" arbitrary: mean_y mean_ivar rule: clear_bins.induct)
  case (1 n_bins n mean_y mean_ivar)
  show ?case
  proof (cases "n < n_bins + 1")
    case True
    have y1: "wr mean_y n 0 = Some (mean_y[nat n := 0])"
      and i1: "wr mean_ivar n 0 = Some (mean_ivar[nat n := 0])"
      using True "1.prems" by (simp_all add: wr_in_range)
    have "\<exists>b. clear_bins n_bins (n + 1) (mean_y[nat n := 0], mean_ivar[nat n := 0]) = Some b"
      using "1.prems" by (intro "1.hyps" [OF True _ _]) (simp_all add: y1 i1)
    then show ?thesis
      by (simp add: clear_bins.simps [of n_bins n] True y1 i1)
  next
    case False
    then show ?thesis
      by (simp add: clear_bins.simps [of n_bins n])
  qed
qed


lemma clear_bins_zero:
  assumes "clear_bins n_bins n (mean_y, mean_ivar) = Some (mean_y', mean_ivar')" and "0 \<le> n"
  shows "(int i < n \<longrightarrow> mean_y' ! i = mean_y ! i \<and> mean_ivar' ! i = mean_ivar ! i) \<and>
         (n \<le> int i \<and> int i \<le> n_bins \<longrightarrow> mean_y' ! i = 0 \<and> mean_ivar' ! i = 0)"
  using assms
proof (induction n_bins n "(mean_y, mean_ivar)" arbitrary: mean_y mean_ivar rule: clear_bins.induct)
  case (1 n_bins n mean_y mean_ivar)
  show ?case
  proof (cases "n < n_bins + 1")
    case True
    with "1.prems" obtain y1 i1 where
      y1: "wr mean_y n 0 = Some y1" and i1: "wr mean_ivar n 0 = Some i1" and
      rest: "clear_bins n_bins (n + 1) (y1, i1) = Some (mean_y', mean_ivar')"
      by (auto simp: clear_bins.simps [of n_bins n] Option.bind_eq_Some_conv)
    from y1 i1 have upd: "y1 = mean_y[nat n := 0]" "i1 = mean_ivar[nat n := 0]"
      and len: "nat n < length mean_y" "nat n < length mean_ivar"
      using "1.prems"(2) by (auto simp: wr_Some)
    have IH: "(int i < n + 1 \<longrightarrow> mean_y' ! i = y1 ! i \<and> mean_ivar' ! i = i1 ! i) \<and>
         (n + 1 \<le> int i \<and> int i \<le> n_bins \<longrightarrow> mean_y' ! i = 0 \<and> mean_ivar' ! i = 0)"
      using "1.hyps" [OF True y1 i1 rest] "1.prems"(2) by simp
    show ?thesis
    proof (cases "int i = n")
      case True
      then have "nat n = i" by simp
      with IH len \<open>int i = n\<close> show ?thesis
        by (auto simp: upd)
    next
      case False
      then have "nat n \<noteq> i" using "1.prems"(2) by auto
      with IH False show ?thesis
        by (auto simp: upd)
    qed
  next
    case False
    with "1.prems" show ?thesis
      by (auto simp: clear_bins.simps [of n_bins n])
  qed
qed

lemma clear_bins_agree:
  assumes a: "clear_bins n_bins 0 (mean_y, mean_ivar) = Some (mean_y', mean_ivar')"
    and b: "clear_bins n_bins 0 (other_y, other_ivar) = Some (other_y', other_ivar')"
    and i: "int i \<le> n_bins"
  shows "mean_y' ! i = other_y' ! i \<and> mean_ivar' ! i = other_ivar' ! i"
  using clear_bins_zero [OF a order_refl, of i] clear_bins_zero [OF b order_refl, of i] i
  by simp

lemma bin_samples_length:
  assumes "bin_samples period bin_duration samples (mean_y, mean_ivar) = Some (mean_y', mean_ivar')"
  shows "length mean_y' = length mean_y \<and> length mean_ivar' = length mean_ivar"
  using assms
proof (induction samples arbitrary: mean_y mean_ivar)
  case Nil
  then show ?case by simp
next
  case (Cons smp rest)
  obtain t y ivar where smp: "smp = (t, y, ivar)"
    by (cases smp) auto
  from Cons.prems obtain y1 i1 where
    y1: "wr mean_y (bin_index period bin_duration t) (mean_y ! nat (bin_index period bin_duration t) + y * ivar) = Some y1"
    and i1: "wr mean_ivar (bin_index period bin_duration t) (mean_ivar ! nat (bin_index period bin_duration t) + ivar) = Some i1"
    and rest: "bin_samples period bin_duration rest (y1, i1) = Some (mean_y', mean_ivar')"
    by (auto simp: smp Let_def Option.bind_eq_Some_conv rd_Some)
  from Cons.IH [OF rest] y1 i1 show ?case
    by (auto simp: wr_Some)
qed

lemma bin_samples_defined:
  assumes "\<forall>smp \<in> set samples. 0 \<le> bin_index period bin_duration (fst smp) \<and>
             bin_index period bin_duration (fst smp) < int (length mean_y) \<and>
             bin_index period bin_duration (fst smp) < int (length mean_ivar)"
  shows "\<exists>b. bin_samples period bin_duration samples (mean_y, mean_ivar) = Some b"
  using assms
proof (induction samples arbitrary: mean_y mean_ivar)
  case Nil
  then show ?case by simp
next
  case (Cons smp rest)
  obtain t y ivar where smp: "smp = (t, y, ivar)"
    by (cases smp) auto
  let ?ind = "bin_index period bin_duration t"
  have ind: "0 \<le> ?ind" "?ind < int (length mean_y)" "?ind < int (length mean_ivar)"
    using Cons.prems by (simp_all add: smp)
  have "\<exists>b. bin_samples period bin_duration rest
          (mean_y[nat ?ind := mean_y ! nat ?ind + y * ivar],
           mean_ivar[nat ?ind := mean_ivar ! nat ?ind + ivar]) = Some b"
    using Cons.prems by (intro Cons.IH) simp
  with ind show ?case
    by (simp add: smp rd_in_range wr_in_range Let_def)
qed

lemma bin_samples_agree:
  assumes a: "bin_samples period bin_duration samples (mean_y, mean_ivar) = Some (mean_y', mean_ivar')"
    and b: "bin_samples period bin_duration samples (other_y, other_ivar) = Some (other_y', other_ivar')"
    and agree: "\<forall>i. int i \<le> n_bins \<longrightarrow> mean_y ! i = other_y ! i \<and> mean_ivar ! i = other_ivar ! i"
  shows "\<forall>i. int i \<le> n_bins \<longrightarrow> mean_y' ! i = other_y' ! i \<and> mean_ivar' ! i = other_ivar' ! i"
  using assms
proof (induction samples arbitrary: mean_y mean_ivar other_y other_ivar)
  case Nil
  then show ?case by simp
next
  case (Cons smp rest)
  obtain t y ivar where smp: "smp = (t, y, ivar)"
    by (cases smp) auto
  let ?ind = "bin_index period bin_duration t"
  from Cons.prems(1) obtain y1 i1 where
    y1: "wr mean_y ?ind (mean_y ! nat ?ind + y * ivar) = Some y1"
    and i1: "wr mean_ivar ?ind (mean_ivar ! nat ?ind + ivar) = Some i1"
    and rest1: "bin_samples period bin_duration rest (y1, i1) = Some (mean_y', mean_ivar')"
    by (auto simp: smp Let_def Option.bind_eq_Some_conv rd_Some)
  from Cons.prems(2) obtain y2 i2 where
    y2: "wr other_y ?ind (other_y ! nat ?ind + y * ivar) = Some y2"
    and i2: "wr other_ivar ?ind (other_ivar ! nat ?ind + ivar) = Some i2"
    and rest2: "bin_samples period bin_duration rest (y2, i2) = Some (other_y', other_ivar')"
    by (auto simp: smp Let_def Option.bind_eq_Some_conv rd_Some)
  have "\<forall>i. int i \<le> n_bins \<longrightarrow> y1 ! i = y2 ! i \<and> i1 ! i = i2 ! i"
  proof (intro allI impI)
    fix i assume i: "int i \<le> n_bins"
    show "y1 ! i = y2 ! i \<and> i1 ! i = i2 ! i"
    proof (cases "i = nat ?ind")
      case True
      with y1 i1 y2 i2 Cons.prems(3) i show ?thesis
        by (auto simp: wr_Some)
    next
      case False
      with y1 i1 y2 i2 Cons.prems(3) i show ?thesis
        by (auto simp: wr_Some)
    qed
  qed
  from Cons.IH [OF rest1 rest2 this] show ?case .
qed


lemma wrap_bins_step:
  assumes "wrap_bins oversample n ind (mean_y, mean_ivar) = Some b'" and "n \<le> oversample"
  obtains src_y y1 src_ivar i1 where
    "rd mean_y n = Some src_y" "wr mean_y ind src_y = Some y1"
    "rd mean_ivar n = Some src_ivar" "wr mean_ivar ind src_ivar = Some i1"
    "wrap_bins oversample (n + 1) (ind + 1) (y1, i1) = Some b'"
  using assms
  by (auto simp: wrap_bins.simps [of oversample n] Option.bind_eq_Some_conv)

lemma wrap_bins_length:
  assumes "wrap_bins oversample n ind (mean_y, mean_ivar) = Some (mean_y', mean_ivar')"
  shows "length mean_y' = length mean_y \<and> length mean_ivar' = length mean_ivar"
  using assms
proof (induction oversample n ind "(mean_y, mean_ivar)" arbitrary: mean_y mean_ivar rule: wrap_bins.induct)
  case (1 oversample n ind mean_y mean_ivar)
  show ?case
  proof (cases "n \<le> oversample")
    case True
    from wrap_bins_step [OF "1.prems" True] obtain src_y y1 src_ivar i1 where
      st: "rd mean_y n = Some src_y" "wr mean_y ind src_y = Some y1"
        "rd mean_ivar n = Some src_ivar" "wr mean_ivar ind src_ivar = Some i1"
      and rest: "wrap_bins oversample (n + 1) (ind + 1) (y1, i1) = Some (mean_y', mean_ivar')"
      by blast
    from "1.hyps" [OF True st rest] st show ?thesis
      by (auto simp: wr_Some)
  next
    case False
    with "1.prems" show ?thesis
      by (simp add: wrap_bins.simps [of oversample n])
  qed
qed

lemma wrap_bins_defined:
  assumes "0 \<le> n" and "0 \<le> ind"
    and "oversample < int (length mean_y)" and "oversample < int (length mean_ivar)"
    and "ind + (oversample - n) < int (length mean_y)"
    and "ind + (oversample - n) < int (length mean_ivar)"
  shows "\<exists>b. wrap_bins oversample n ind (mean_y, mean_ivar) = Some b"
  using assms
proof (induction oversample n ind "(mean_y, mean_ivar)" arbitrary: mean_y mean_ivar rule: wrap_bins.induct)
  case (1 oversample n ind mean_y mean_ivar)
  show ?case
  proof (cases "n \<le> oversample")
    case True
    have ry: "rd mean_y n = Some (mean_y ! nat n)" and ri: "rd mean_ivar n = Some (mean_ivar ! nat n)"
      using True "1.prems" by (simp_all add: rd_in_range)
    have wy: "wr mean_y ind (mean_y ! nat n) = Some (mean_y[nat ind := mean_y ! nat n])"
      and wi: "wr mean_ivar ind (mean_ivar ! nat n) = Some (mean_ivar[nat ind := mean_ivar ! nat n])"
      using True "1.prems" by (simp_all add: wr_in_range)
    have "\<exists>b. wrap_bins oversample (n + 1) (ind + 1)
            (mean_y[nat ind := mean_y ! nat n], mean_ivar[nat ind := mean_ivar ! nat n]) = Some b"
      using "1.prems" by (intro "1.hyps" [OF True ry wy ri wi]) simp_all
    then show ?thesis
      by (simp add: wrap_bins.simps [of oversample n] True ry wy ri wi)
  next
    case False
    then show ?thesis
      by (simp add: wrap_bins.simps [of oversample n])
  qed
qed

lemma wrap_bins_agree:
  assumes a: "wrap_bins oversample n ind (mean_y, mean_ivar) = Some (mean_y', mean_ivar')"
    and b: "wrap_bins oversample n ind (other_y, other_ivar) = Some (other_y', other_ivar')"
    and agree: "\<forall>i. int i \<le> n_bins \<longrightarrow> mean_y ! i = other_y ! i \<and> mean_ivar ! i = other_ivar ! i"
    and os: "oversample \<le> n_bins"
  shows "\<forall>i. int i \<le> n_bins \<longrightarrow> mean_y' ! i = other_y' ! i \<and> mean_ivar' ! i = other_ivar' ! i"
  using a b agree os
proof (induction oversample n ind "(mean_y, mean_ivar)" arbitrary: mean_y mean_ivar other_y other_ivar
    rule: wrap_bins.induct)
  case (1 oversample n ind mean_y mean_ivar)
  show ?case
  proof (cases "n \<le> oversample")
    case True
    from wrap_bins_step [OF "1.prems"(1) True] obtain src_y y1 src_ivar i1 where
      st1: "rd mean_y n = Some src_y" "wr mean_y ind src_y = Some y1"
        "rd mean_ivar n = Some src_ivar" "wr mean_ivar ind src_ivar = Some i1"
      and rest1: "wrap_bins oversample (n + 1) (ind + 1) (y1, i1) = Some (mean_y', mean_ivar')"
      by blast
    from wrap_bins_step [OF "1.prems"(2) True] obtain src_y2 y2 src_ivar2 i2 where
      st2: "rd other_y n = Some src_y2" "wr other_y ind src_y2 = Some y2"
        "rd other_ivar n = Some src_ivar2" "wr other_ivar ind src_ivar2 = Some i2"
      and rest2: "wrap_bins oversample (n + 1) (ind + 1) (y2, i2) = Some (other_y', other_ivar')"
      by blast
    have n: "0 \<le> n" "n \<le> n_bins"
      using st1 True "1.prems"(4) by (auto simp: rd_Some)
    then have "int (nat n) \<le> n_bins" by simp
    with "1.prems"(3) have "mean_y ! nat n = other_y ! nat n \<and> mean_ivar ! nat n = other_ivar ! nat n"
      by blast
    with st1 st2 have src: "src_y2 = src_y" "src_ivar2 = src_ivar"
      by (auto simp: rd_Some)
    have "\<forall>i. int i \<le> n_bins \<longrightarrow> y1 ! i = y2 ! i \<and> i1 ! i = i2 ! i"
    proof (intro allI impI)
      fix i assume i: "int i \<le> n_bins"
      show "y1 ! i = y2 ! i \<and> i1 ! i = i2 ! i"
        using st1 st2 src "1.prems"(3) i
        by (cases "i = nat ind") (auto simp: wr_Some)
    qed
    from "1.hyps" [OF True st1 rest1 rest2 this "1.prems"(4)] show ?thesis .
  next
    case False
    with "1.prems" show ?thesis
      by (simp add: wrap_bins.simps [of oversample n])
  qed
qed


lemma cumulate_step:
  assumes "cumulate n_bins n (mean_y, mean_ivar) = Some b'" and "n \<le> n_bins"
  obtains cur_y prev_y y1 cur_ivar prev_ivar i1 where
    "rd mean_y n = Some cur_y" "rd mean_y (n - 1) = Some prev_y"
    "wr mean_y n (cur_y + prev_y) = Some y1"
    "rd mean_ivar n = Some cur_ivar" "rd mean_ivar (n - 1) = Some prev_ivar"
    "wr mean_ivar n (cur_ivar + prev_ivar) = Some i1"
    "cumulate n_bins (n + 1) (y1, i1) = Some b'"
  using assms
  by (auto simp: cumulate.simps [of n_bins n] Option.bind_eq_Some_conv)

lemma cumulate_length:
  assumes "cumulate n_bins n (mean_y, mean_ivar) = Some (mean_y', mean_ivar')"
  shows "length mean_y' = length mean_y \<and> length mean_ivar' = length mean_ivar"
  using assms
proof (induction n_bins n "(mean_y, mean_ivar)" arbitrary: mean_y mean_ivar rule: cumulate.induct)
  case (1 n_bins n mean_y mean_ivar)
  show ?case
  proof (cases "n \<le> n_bins")
    case True
    from cumulate_step [OF "1.prems" True] obtain cur_y prev_y y1 cur_ivar prev_ivar i1 where
      st: "rd mean_y n = Some cur_y" "rd mean_y (n - 1) = Some prev_y"
        "wr mean_y n (cur_y + prev_y) = Some y1"
        "rd mean_ivar n = Some cur_ivar" "rd mean_ivar (n - 1) = Some prev_ivar"
        "wr mean_ivar n (cur_ivar + prev_ivar) = Some i1"
      and rest: "cumulate n_bins (n + 1) (y1, i1) = Some (mean_y', mean_ivar')"
      by blast
    from "1.hyps" [OF True st rest] st show ?thesis
      by (auto simp: wr_Some)
  next
    case False
    with "1.prems" show ?thesis
      by (simp add: cumulate.simps [of n_bins n])
  qed
qed

lemma cumulate_defined:
  assumes "1 \<le> n" and "n_bins < int (length mean_y)" and "n_bins < int (length mean_ivar)"
  shows "\<exists>b. cumulate n_bins n (mean_y, mean_ivar) = Some b"
  using assms
proof (induction n_bins n "(mean_y, mean_ivar)" arbitrary: mean_y mean_ivar rule: cumulate.induct)
  case (1 n_bins n mean_y mean_ivar)
  show ?case
  proof (cases "n \<le> n_bins")
    case True
    let ?y1 = "mean_y[nat n := mean_y ! nat n + mean_y ! nat (n - 1)]"
    let ?i1 = "mean_ivar[nat n := mean_ivar ! nat n + mean_ivar ! nat (n - 1)]"
    have st: "rd mean_y n = Some (mean_y ! nat n)" "rd mean_y (n - 1) = Some (mean_y ! nat (n - 1))"
      "wr mean_y n (mean_y ! nat n + mean_y ! nat (n - 1)) = Some ?y1"
      "rd mean_ivar n = Some (mean_ivar ! nat n)" "rd mean_ivar (n - 1) = Some (mean_ivar ! nat (n - 1))"
      "wr mean_ivar n (mean_ivar ! nat n + mean_ivar ! nat (n - 1)) = Some ?i1"
      using True "1.prems" by (simp_all add: rd_in_range wr_in_range)
    have "\<exists>b. cumulate n_bins (n + 1) (?y1, ?i1) = Some b"
      using "1.prems" by (intro "1.hyps" [OF True st]) simp_all
    then show ?thesis
      by (simp add: cumulate.simps [of n_bins n] True st)
  next
    case False
    then show ?thesis
      by (simp add: cumulate.simps [of n_bins n])
  qed
qed

lemma cumulate_agree:
  assumes a: "cumulate n_bins n (mean_y, mean_ivar) = Some (mean_y', mean_ivar')"
    and b: "cumulate n_bins n (other_y, other_ivar) = Some (other_y', other_ivar')"
    and agree: "\<forall>i. int i \<le> n_bins \<longrightarrow> mean_y ! i = other_y ! i \<and> mean_ivar ! i = other_ivar ! i"
  shows "\<forall>i. int i \<le> n_bins \<longrightarrow> mean_y' ! i = other_y' ! i \<and> mean_ivar' ! i = other_ivar' ! i"
  using a b agree
proof (induction n_bins n "(mean_y, mean_ivar)" arbitrary: mean_y mean_ivar other_y other_ivar
    rule: cumulate.induct)
  case (1 n_bins n mean_y mean_ivar)
  show ?case
  proof (cases "n \<le> n_bins")
    case True
    from cumulate_step [OF "1.prems"(1) True] obtain cur_y prev_y y1 cur_ivar prev_ivar i1 where
      st1: "rd mean_y n = Some cur_y" "rd mean_y (n - 1) = Some prev_y"
        "wr mean_y n (cur_y + prev_y) = Some y1"
        "rd mean_ivar n = Some cur_ivar" "rd mean_ivar (n - 1) = Some prev_ivar"
        "wr mean_ivar n (cur_ivar + prev_ivar) = Some i1"
      and rest1: "cumulate n_bins (n + 1) (y1, i1) = Some (mean_y', mean_ivar')"
      by blast
    from cumulate_step [OF "1.prems"(2) True] obtain cur_y2 prev_y2 y2 cur_ivar2 prev_ivar2 i2 where
      st2: "rd other_y n = Some cur_y2" "rd other_y (n - 1) = Some prev_y2"
        "wr other_y n (cur_y2 + prev_y2) = Some y2"
        "rd other_ivar n = Some cur_ivar2" "rd other_ivar (n - 1) = Some prev_ivar2"
        "wr other_ivar n (cur_ivar2 + prev_ivar2) = Some i2"
      and rest2: "cumulate n_bins (n + 1) (y2, i2) = Some (other_y', other_ivar')"
      by blast
    have n: "1 \<le> n"
      using st1 by (auto simp: rd_Some)
    with True have "int (nat n) \<le> n_bins" "int (nat (n - 1)) \<le> n_bins" by simp_all
    with "1.prems"(3) have
      "mean_y ! nat n = other_y ! nat n \<and> mean_ivar ! nat n = other_ivar ! nat n"
      "mean_y ! nat (n - 1) = other_y ! nat (n - 1) \<and> mean_ivar ! nat (n - 1) = other_ivar ! nat (n - 1)"
      by blast+
    with st1 st2 have src: "cur_y2 = cur_y" "prev_y2 = prev_y" "cur_ivar2 = cur_ivar" "prev_ivar2 = prev_ivar"
      by (auto simp: rd_Some)
    have "\<forall>i. int i \<le> n_bins \<longrightarrow> y1 ! i = y2 ! i \<and> i1 ! i = i2 ! i"
    proof (intro allI impI)
      fix i assume i: "int i \<le> n_bins"
      show "y1 ! i = y2 ! i \<and> i1 ! i = i2 ! i"
        using st1(3,6) st2(3,6) src "1.prems"(3) i
        by (cases "i = nat n") (auto simp: wr_Some)
    qed
    from "1.hyps" [OF True st1 rest1 rest2 this] show ?thesis .
  next
    case False
    with "1.prems" show ?thesis
      by (simp add: cumulate.simps [of n_bins n])
  qed
qed

lemma fold_period_length:
  assumes "fold_period samples oversample bin_duration period (mean_y, mean_ivar) = Some (mean_y', mean_ivar')"
  shows "length mean_y' = length mean_y \<and> length mean_ivar' = length mean_ivar"
proof -
  let ?n = "n_bins_of period bin_duration oversample"
  from assms obtain y1 i1 y2 i2 y3 i3 where
    c: "clear_bins ?n 0 (mean_y, mean_ivar) = Some (y1, i1)" and
    b: "bin_samples period bin_duration samples (y1, i1) = Some (y2, i2)" and
    w: "wrap_bins oversample 1 (?n - oversample) (y2, i2) = Some (y3, i3)" and
    u: "cumulate ?n 1 (y3, i3) = Some (mean_y', mean_ivar')"
    by (auto simp: fold_period_def Let_def Option.bind_eq_Some_conv)
  from clear_bins_length [OF c] bin_samples_length [OF b] wrap_bins_length [OF w] cumulate_length [OF u]
  show ?thesis by simp
qed

lemma fold_period_agree:
  assumes a: "fold_period samples oversample bin_duration period (mean_y, mean_ivar) = Some (mean_y', mean_ivar')"
    and b: "fold_period samples oversample bin_duration period (other_y, other_ivar) = Some (other_y', other_ivar')"
    and os: "oversample \<le> n_bins_of period bin_duration oversample"
    and i: "int i \<le> n_bins_of period bin_duration oversample"
  shows "mean_y' ! i = other_y' ! i \<and> mean_ivar' ! i = other_ivar' ! i"
proof -
  let ?n = "n_bins_of period bin_duration oversample"
  from a obtain y1 i1 y2 i2 y3 i3 where
    c1: "clear_bins ?n 0 (mean_y, mean_ivar) = Some (y1, i1)" and
    b1: "bin_samples period bin_duration samples (y1, i1) = Some (y2, i2)" and
    w1: "wrap_bins oversample 1 (?n - oversample) (y2, i2) = Some (y3, i3)" and
    u1: "cumulate ?n 1 (y3, i3) = Some (mean_y', mean_ivar')"
    by (auto simp: fold_period_def Let_def Option.bind_eq_Some_conv)
  from b obtain z1 j1 z2 j2 z3 j3 where
    c2: "clear_bins ?n 0 (other_y, other_ivar) = Some (z1, j1)" and
    b2: "bin_samples period bin_duration samples (z1, j1) = Some (z2, j2)" and
    w2: "wrap_bins oversample 1 (?n - oversample) (z2, j2) = Some (z3, j3)" and
    u2: "cumulate ?n 1 (z3, j3) = Some (other_y', other_ivar')"
    by (auto simp: fold_period_def Let_def Option.bind_eq_Some_conv)
  have "\<forall>i. int i \<le> ?n \<longrightarrow> y1 ! i = z1 ! i \<and> i1 ! i = j1 ! i"
    using clear_bins_agree [OF c1 c2] by blast
  from bin_samples_agree [OF b1 b2 this]
  have "\<forall>i. int i \<le> ?n \<longrightarrow> y2 ! i = z2 ! i \<and> i2 ! i = j2 ! i" .
  from wrap_bins_agree [OF w1 w2 this os]
  have "\<forall>i. int i \<le> ?n \<longrightarrow> y3 ! i = z3 ! i \<and> i3 ! i = j3 ! i" .
  from cumulate_agree [OF u1 u2 this] i show ?thesis
    by blast
qed

section \<open>Invariants of the scan\<close>

lemma scan_phases_invariant:
  assumes "scan_phases b s obj_flag bin_duration period p dur n_max n st = Some st'"
    and "I st"
    and "\<And>m st1 st2. n \<le> m \<Longrightarrow> m \<le> n_max \<Longrightarrow> I st1 \<Longrightarrow>
           candidate b s obj_flag bin_duration period p dur m st1 = Some st2 \<Longrightarrow> I st2"
  shows "I st'"
  using assms
proof (induction b s obj_flag bin_duration period p dur n_max n st rule: scan_phases.induct)
  case (1 b s obj_flag bin_duration period p dur n_max n st)
  show ?case
  proof (cases "n \<le> n_max")
    case True
    with "1.prems"(1) obtain st1 where
      c: "candidate b s obj_flag bin_duration period p dur n st = Some st1" and
      rest: "scan_phases b s obj_flag bin_duration period p dur n_max (n + 1) st1 = Some st'"
      by (auto simp: scan_phases.simps [of b s obj_flag bin_duration period p dur n_max n]
          Option.bind_eq_Some_conv)
    have "I st1"
      using "1.prems"(3) [OF _ True "1.prems"(2) c] by simp
    show ?thesis
    proof (rule "1.IH" [OF True c rest \<open>I st1\<close>])
      fix m st1 st2
      assume "n + 1 \<le> m" "m \<le> n_max" "I st1"
        "candidate b s obj_flag bin_duration period p dur m st1 = Some st2"
      then show "I st2"
        using "1.prems"(3) [of m st1 st2] by simp
    qed
  next
    case False
    with "1.prems"(1,2) show ?thesis
      by (simp add: scan_phases.simps [of b s obj_flag bin_duration period p dur n_max n])
  qed
qed

lemma scan_durations_invariant:
  assumes "scan_durations b s obj_flag bin_duration period p n_bins durs st = Some st'"
    and "I st"
    and "\<And>dur m st1 st2. dur \<in> set durs \<Longrightarrow> 0 \<le> m \<Longrightarrow> m \<le> n_bins - dur \<Longrightarrow> I st1 \<Longrightarrow>
           candidate b s obj_flag bin_duration period p dur m st1 = Some st2 \<Longrightarrow> I st2"
  shows "I st'"
  using assms
proof (induction durs arbitrary: st)
  case Nil
  then show ?case by simp
next
  case (Cons dur rest)
  from Cons.prems(1) obtain st1 where
    ph: "scan_phases b s obj_flag bin_duration period p dur (n_bins - dur) 0 st = Some st1" and
    rest: "scan_durations b s obj_flag bin_duration period p n_bins rest st1 = Some st'"
    by (auto simp: Option.bind_eq_Some_conv)
  have "I st1"
    by (rule scan_phases_invariant [where I = I, OF ph Cons.prems(2)]) (rule Cons.prems(3), auto)
  show ?case
    by (rule Cons.IH [OF rest \<open>I st1\<close>]) (rule Cons.prems(3), auto)
qed


lemma candidate_frame:
  assumes "candidate b s obj_flag bin_duration period p dur n (loc, out) = Some (loc', out')"
  shows "sizes out' = sizes out" and "q \<noteq> nat p \<Longrightarrow> result_at out' q = result_at out q"
proof -
  obtain sum_y2 sum_y sum_ivar where s: "s = (sum_y2, sum_y, sum_ivar)"
    by (cases s) auto
  from candidate_Some [OF assms [unfolded s]]
  consider "out' = out"
    | w r where "accept (sum_y2, sum_y, sum_ivar) obj_flag bin_duration period p dur n w (r, out) = Some (loc', out')"
    by (auto split: if_splits)
  then have "sizes out' = sizes out \<and> (q \<noteq> nat p \<longrightarrow> result_at out' q = result_at out q)"
  proof cases
    case 1
    then show ?thesis by simp
  next
    case 2
    from accept_Some [OF 2] show ?thesis
      by (simp add: sizes_def result_at_def)
  qed
  then show "sizes out' = sizes out" and "q \<noteq> nat p \<Longrightarrow> result_at out' q = result_at out q"
    by simp_all
qed

lemma scan_durations_frame:
  assumes "scan_durations b s obj_flag bin_duration period p n_bins durs (loc, out) = Some (loc', out')"
  shows "sizes out' = sizes out" and "q \<noteq> nat p \<Longrightarrow> result_at out' q = result_at out q"
proof -
  let ?I = "\<lambda>st. sizes (snd st) = sizes out \<and> (q \<noteq> nat p \<longrightarrow> result_at (snd st) q = result_at out q)"
  have "?I (loc', out')"
  proof (rule scan_durations_invariant [where I = ?I, OF assms])
    show "?I (loc, out)" by simp
  next
    fix dur m st1 st2
    assume I: "?I st1" and c: "candidate b s obj_flag bin_duration period p dur m st1 = Some st2"
    obtain l1 o1 l2 o2 where st: "st1 = (l1, o1)" "st2 = (l2, o2)"
      by (cases st1, cases st2) auto
    from candidate_frame [OF c [unfolded st]] I show "?I st2"
      by (simp add: st)
  qed
  then show "sizes out' = sizes out" and "q \<noteq> nat p \<Longrightarrow> result_at out' q = result_at out q"
    by simp_all
qed

section \<open>The run does not fault\<close>

lemma fold_period_defined:
  assumes period: "0 < period" and bd: "0 < bin_duration" and os: "1 \<le> oversample"
    and len: "n_bins_of period bin_duration oversample < int (length mean_y)"
      "n_bins_of period bin_duration oversample < int (length mean_ivar)"
  shows "\<exists>b. fold_period samples oversample bin_duration period (mean_y, mean_ivar) = Some b"
proof -
  let ?n = "n_bins_of period bin_duration oversample"
  have m: "0 \<le> c_trunc (period / bin_duration)"
    using period bd by (intro c_trunc_nonneg) simp
  then have n: "oversample \<le> ?n" "?n - oversample = c_trunc (period / bin_duration)"
    by (simp_all add: n_bins_of_def)
  obtain y1 i1 where c: "clear_bins ?n 0 (mean_y, mean_ivar) = Some (y1, i1)"
    using clear_bins_defined [OF order_refl len] by auto
  have len1: "length y1 = length mean_y" "length i1 = length mean_ivar"
    using clear_bins_length [OF c] by simp_all
  have "\<forall>smp \<in> set samples. 0 \<le> bin_index period bin_duration (fst smp) \<and>
          bin_index period bin_duration (fst smp) < int (length y1) \<and>
          bin_index period bin_duration (fst smp) < int (length i1)"
  proof
    fix smp assume "smp \<in> set samples"
    from bin_index_bounds [OF period bd, of "fst smp"] os len n
    show "0 \<le> bin_index period bin_duration (fst smp) \<and>
          bin_index period bin_duration (fst smp) < int (length y1) \<and>
          bin_index period bin_duration (fst smp) < int (length i1)"
      by (simp add: len1)
  qed
  from bin_samples_defined [OF this]
  obtain y2 i2 where b: "bin_samples period bin_duration samples (y1, i1) = Some (y2, i2)"
    by auto
  have len2: "length y2 = length mean_y" "length i2 = length mean_ivar"
    using bin_samples_length [OF b] len1 by simp_all
  have "\<exists>b. wrap_bins oversample 1 (?n - oversample) (y2, i2) = Some b"
    using os len n m by (intro wrap_bins_defined) (simp_all add: len2)
  then obtain y3 i3 where w: "wrap_bins oversample 1 (?n - oversample) (y2, i2) = Some (y3, i3)"
    by auto
  have len3: "length y3 = length mean_y" "length i3 = length mean_ivar"
    using wrap_bins_length [OF w] len2 by simp_all
  have "\<exists>b. cumulate ?n 1 (y3, i3) = Some b"
    using len by (intro cumulate_defined) (simp_all add: len3)
  with c b w show ?thesis
    by (auto simp: fold_period_def Let_def)
qed

lemma window_defined:
  assumes "0 \<le> n" and "0 \<le> dur" and "n + dur < int (length mean_y)" and "n + dur < int (length mean_ivar)"
  shows "\<exists>w. window (mean_y, mean_ivar) sum_y sum_ivar dur n = Some w"
  using assms by (simp add: window_def rd_in_range Let_def)

lemma accept_defined:
  assumes "\<not> skipped w" and "0 \<le> p" and "\<forall>l \<in> set (sizes out). p < int l"
  shows "\<exists>st'. accept s obj_flag bin_duration period p dur n w (loc, out) = Some st'"
proof -
  obtain r where r: "evaluate s (if obj_flag = 0 then 1 else 0) w loc = Some r"
    using evaluate_defined [OF assms(1)] by blast
  from assms(2,3) show ?thesis
    by (simp add: accept_def r wr_in_range rd_in_range sizes_def)
qed

lemma candidate_defined:
  assumes "0 \<le> n" and "0 \<le> dur" and "n + dur < int (length mean_y)" and "n + dur < int (length mean_ivar)"
    and "0 \<le> p" and "\<forall>l \<in> set (sizes out). p < int l"
  shows "\<exists>st'. candidate (mean_y, mean_ivar) s obj_flag bin_duration period p dur n (loc, out) = Some st'"
proof -
  obtain sum_y2 sum_y sum_ivar where s: "s = (sum_y2, sum_y, sum_ivar)"
    by (cases s) auto
  obtain w where w: "window (mean_y, mean_ivar) sum_y sum_ivar dur n = Some w"
    using window_defined [OF assms(1-4)] by blast
  show ?thesis
  proof (cases "skipped w")
    case True
    with w show ?thesis by (simp add: candidate_def s)
  next
    case False
    obtain r where r: "evaluate s obj_flag w loc = Some r"
      using evaluate_defined [OF False] by blast
    have best: "rd (best_objective out) p = Some (best_objective out ! nat p)"
      using assms(5,6) by (simp add: rd_in_range sizes_def)
    from accept_defined [OF False assms(5,6)]
    obtain st' where "accept s obj_flag bin_duration period p dur n w (r, out) = Some st'"
      by blast
    with w False r best show ?thesis
      by (simp add: candidate_def s)
  qed
qed


lemma scan_phases_defined:
  assumes "0 \<le> n" and "0 \<le> dur"
    and "n_max + dur < int (length (fst b))" and "n_max + dur < int (length (snd b))"
    and "0 \<le> p" and "\<forall>l \<in> set (sizes (snd st)). p < int l"
  shows "\<exists>st'. scan_phases b s obj_flag bin_duration period p dur n_max n st = Some st'"
  using assms
proof (induction b s obj_flag bin_duration period p dur n_max n st rule: scan_phases.induct)
  case (1 b s obj_flag bin_duration period p dur n_max n st)
  show ?case
  proof (cases "n \<le> n_max")
    case True
    obtain mean_y mean_ivar loc out where b: "b = (mean_y, mean_ivar)" and st: "st = (loc, out)"
      by (cases b, cases st) auto
    have "\<exists>st1. candidate (mean_y, mean_ivar) s obj_flag bin_duration period p dur n (loc, out) = Some st1"
      using True "1.prems" by (intro candidate_defined) (simp_all add: b st)
    then obtain loc1 out1 where
      c: "candidate b s obj_flag bin_duration period p dur n st = Some (loc1, out1)"
      by (auto simp: b st)
    have "sizes out1 = sizes out"
      using candidate_frame(1) [OF c [unfolded st]] .
    then have "\<exists>st'. scan_phases b s obj_flag bin_duration period p dur n_max (n + 1) (loc1, out1) = Some st'"
      using "1.prems" by (intro "1.IH" [OF True c]) (simp_all add: st)
    with True c show ?thesis
      by (simp add: scan_phases.simps [of b s obj_flag bin_duration period p dur n_max n])
  next
    case False
    then show ?thesis
      by (simp add: scan_phases.simps [of b s obj_flag bin_duration period p dur n_max n])
  qed
qed

lemma scan_phases_sizes:
  assumes "scan_phases b s obj_flag bin_duration period p dur n_max n st = Some st'"
  shows "sizes (snd st') = sizes (snd st)"
proof (rule scan_phases_invariant [where I = "\<lambda>x. sizes (snd x) = sizes (snd st)", OF assms])
  show "sizes (snd st) = sizes (snd st)" by simp
next
  fix m st1 st2
  assume I: "sizes (snd st1) = sizes (snd st)"
    and c: "candidate b s obj_flag bin_duration period p dur m st1 = Some st2"
  obtain l1 o1 l2 o2 where st: "st1 = (l1, o1)" "st2 = (l2, o2)"
    by (cases st1, cases st2) auto
  from candidate_frame(1) [OF c [unfolded st]] I show "sizes (snd st2) = sizes (snd st)"
    by (simp add: st)
qed

lemma scan_durations_defined:
  assumes "\<forall>dur \<in> set durs. 0 \<le> dur"
    and "n_bins < int (length (fst b))" and "n_bins < int (length (snd b))"
    and "0 \<le> p" and "\<forall>l \<in> set (sizes (snd st)). p < int l"
  shows "\<exists>st'. scan_durations b s obj_flag bin_duration period p n_bins durs st = Some st'"
  using assms
proof (induction durs arbitrary: st)
  case Nil
  show ?case by simp
next
  case (Cons dur rest)
  have "\<exists>st1. scan_phases b s obj_flag bin_duration period p dur (n_bins - dur) 0 st = Some st1"
    using Cons.prems by (intro scan_phases_defined) simp_all
  then obtain st1 where
    ph: "scan_phases b s obj_flag bin_duration period p dur (n_bins - dur) 0 st = Some st1"
    by blast
  have "\<exists>st'. scan_durations b s obj_flag bin_duration period p n_bins rest st1 = Some st'"
    using Cons.prems scan_phases_sizes [OF ph] by (intro Cons.IH) simp_all
  with ph show ?case
    by simp
qed

lemma duration_bins_pos: "1 \<le> duration_bins bin_duration d"
  by (simp add: duration_bins_def Let_def)

lemma search_period_frame:
  assumes "search_period samples durations_index oversample s obj_flag bin_duration junk p period (b, out) =
             Some (b', out')"
  shows "sizes out' = sizes out" and "q \<noteq> nat p \<Longrightarrow> result_at out' q = result_at out q"
    and "length (fst b') = length (fst b)" and "length (snd b') = length (snd b)"
    and "fold_period samples oversample bin_duration period b = Some b'"
proof -
  from assms obtain bo loc where
    f: "fold_period samples oversample bin_duration period b = Some b'" and
    bo: "wr (best_objective out) p MinusInfinity = Some bo" and
    sc: "scan_durations b' s obj_flag bin_duration period p
           (n_bins_of period bin_duration oversample) durations_index
           (junk, out\<lparr>best_objective := bo\<rparr>) = Some (loc, out')"
    by (auto simp: search_period_def Option.bind_eq_Some_conv)
  show "fold_period samples oversample bin_duration period b = Some b'"
    by (rule f)
  from fold_period_length [of samples oversample bin_duration period "fst b" "snd b" "fst b'" "snd b'"] f
  show "length (fst b') = length (fst b)" and "length (snd b') = length (snd b)"
    by simp_all
  from bo have "sizes (out\<lparr>best_objective := bo\<rparr>) = sizes out"
    by (auto simp: wr_Some sizes_def)
  with scan_durations_frame(1) [OF sc] show "sizes out' = sizes out"
    by simp
  show "result_at out' q = result_at out q" if "q \<noteq> nat p"
  proof -
    from bo that have "result_at (out\<lparr>best_objective := bo\<rparr>) q = result_at out q"
      by (auto simp: wr_Some result_at_def)
    with scan_durations_frame(2) [OF sc that] show ?thesis
      by simp
  qed
qed


lemma search_period_defined:
  assumes "0 < period" and "0 < bin_duration" and "1 \<le> oversample"
    and "n_bins_of period bin_duration oversample < int (length (fst b))"
    and "n_bins_of period bin_duration oversample < int (length (snd b))"
    and "\<forall>dur \<in> set durations_index. 0 \<le> dur"
    and "0 \<le> p" and "\<forall>l \<in> set (sizes out). p < int l"
  shows "\<exists>st'. search_period samples durations_index oversample s obj_flag bin_duration junk p period (b, out) =
           Some st'"
proof -
  let ?n = "n_bins_of period bin_duration oversample"
  obtain b' where f: "fold_period samples oversample bin_duration period b = Some b'"
    using fold_period_defined [OF assms(1-5), of samples] by auto
  have len: "length (fst b') = length (fst b)" "length (snd b') = length (snd b)"
    using fold_period_length [of samples oversample bin_duration period "fst b" "snd b" "fst b'" "snd b'"] f
    by simp_all
  let ?bo = "(best_objective out)[nat p := MinusInfinity]"
  have bo: "wr (best_objective out) p MinusInfinity = Some ?bo"
    using assms(7,8) by (simp add: wr_in_range sizes_def)
  have "\<exists>st'. scan_durations b' s obj_flag bin_duration period p ?n durations_index
           (junk, out\<lparr>best_objective := ?bo\<rparr>) = Some st'"
    using assms(4-8) by (intro scan_durations_defined) (simp_all add: len sizes_def)
  with f bo show ?thesis
    by (auto simp: search_period_def)
qed

lemma periods_loop_frame:
  assumes "periods_loop samples durations_index oversample s obj_flag bin_duration junk p ps (b, out) =
             Some (b', out')"
    and "0 \<le> p"
  shows "sizes out' = sizes out \<and> length (fst b') = length (fst b) \<and> length (snd b') = length (snd b) \<and>
         (\<forall>q. q < nat p \<longrightarrow> result_at out' q = result_at out q)"
  using assms
proof (induction ps arbitrary: p b out)
  case Nil
  then show ?case by simp
next
  case (Cons period rest)
  from Cons.prems(1) obtain b1 out1 where
    sp: "search_period samples durations_index oversample s obj_flag bin_duration junk p period (b, out) =
           Some (b1, out1)" and
    rest: "periods_loop samples durations_index oversample s obj_flag bin_duration junk (p + 1) rest (b1, out1) =
           Some (b', out')"
    by (auto simp: Option.bind_eq_Some_conv)
  have IH: "sizes out' = sizes out1 \<and> length (fst b') = length (fst b1) \<and> length (snd b') = length (snd b1) \<and>
         (\<forall>q. q < nat (p + 1) \<longrightarrow> result_at out' q = result_at out1 q)"
    using Cons.IH [OF rest] Cons.prems(2) by simp
  have "result_at out' q = result_at out q" if "q < nat p" for q
  proof -
    from that Cons.prems(2) have "q < nat (p + 1)" "q \<noteq> nat p" by simp_all
    with IH search_period_frame(2) [OF sp] show ?thesis by simp
  qed
  with IH search_period_frame(1,3,4) [OF sp] show ?case
    by simp
qed

lemma periods_loop_result:
  assumes "periods_loop samples durations_index oversample s obj_flag bin_duration junk p ps (b, out) =
             Some (b', out')"
    and "0 \<le> p" and "i < length ps"
  shows "\<exists>b1 out1 b2 out2.
           search_period samples durations_index oversample s obj_flag bin_duration junk (p + int i) (ps ! i)
             (b1, out1) = Some (b2, out2) \<and>
           result_at out' (nat p + i) = result_at out2 (nat p + i) \<and>
           sizes out1 = sizes out \<and>
           length (fst b1) = length (fst b) \<and> length (snd b1) = length (snd b)"
  using assms
proof (induction ps arbitrary: p b out i)
  case Nil
  then show ?case by simp
next
  case (Cons period rest)
  from Cons.prems(1) obtain b1 out1 where
    sp: "search_period samples durations_index oversample s obj_flag bin_duration junk p period (b, out) =
           Some (b1, out1)" and
    rest: "periods_loop samples durations_index oversample s obj_flag bin_duration junk (p + 1) rest (b1, out1) =
           Some (b', out')"
    by (auto simp: Option.bind_eq_Some_conv)
  show ?case
  proof (cases i)
    case 0
    have "result_at out' (nat p) = result_at out1 (nat p)"
      using periods_loop_frame [OF rest] Cons.prems(2) by simp
    with sp 0 show ?thesis
      by (intro exI [of _ b] exI [of _ out] exI [of _ b1] exI [of _ out1]) simp
  next
    case (Suc j)
    with Cons.prems(3) have j: "j < length rest" by simp
    from Cons.IH [OF rest _ j] Cons.prems(2) obtain c1 o1 c2 o2 where
      *: "search_period samples durations_index oversample s obj_flag bin_duration junk (p + 1 + int j) (rest ! j)
             (c1, o1) = Some (c2, o2)"
        "result_at out' (nat (p + 1) + j) = result_at o2 (nat (p + 1) + j)"
        "sizes o1 = sizes out1"
        "length (fst c1) = length (fst b1)" "length (snd c1) = length (snd b1)"
      by auto
    have idx: "p + 1 + int j = p + int i" "nat (p + 1) + j = nat p + i"
      using Suc Cons.prems(2) by simp_all
    from * search_period_frame(1,3,4) [OF sp] show ?thesis
      unfolding idx
      by (intro exI [of _ c1] exI [of _ o1] exI [of _ c2] exI [of _ o2]) (simp add: Suc)
  qed
qed


lemma periods_loop_defined:
  assumes "0 < bin_duration" and "1 \<le> oversample"
    and "\<forall>period \<in> set ps. 0 < period \<and>
           n_bins_of period bin_duration oversample < int (length (fst b)) \<and>
           n_bins_of period bin_duration oversample < int (length (snd b))"
    and "\<forall>dur \<in> set durations_index. 0 \<le> dur"
    and "0 \<le> p" and "\<forall>l \<in> set (sizes out). p + int (length ps) \<le> int l"
  shows "\<exists>st'. periods_loop samples durations_index oversample s obj_flag bin_duration junk p ps (b, out) =
           Some st'"
  using assms
proof (induction ps arbitrary: p b out)
  case Nil
  show ?case by simp
next
  case (Cons period rest)
  have "\<exists>st'. search_period samples durations_index oversample s obj_flag bin_duration junk p period (b, out) =
           Some st'"
    using Cons.prems by (intro search_period_defined) auto
  then obtain b1 out1 where
    sp: "search_period samples durations_index oversample s obj_flag bin_duration junk p period (b, out) =
           Some (b1, out1)"
    by auto
  note fr = search_period_frame(1,3,4) [OF sp]
  have "\<exists>st'. periods_loop samples durations_index oversample s obj_flag bin_duration junk (p + 1) rest (b1, out1) =
           Some st'"
    using Cons.prems by (intro Cons.IH) (auto simp: fr)
  with sp show ?case
    by simp
qed

lemma minmax_hd_tl:
  "xs \<noteq> [] \<Longrightarrow> minmax (tl xs) (hd xs, hd xs) = (Min (set xs), Max (set xs))"
  by (cases xs) (simp_all add: minmax_grid)

lemma run_unfold:
  assumes "periods \<noteq> []" and "durations \<noteq> []"
  shows "run_transit_periodogram e samples periods durations oversample obj_flag out =
    (if Min (set periods) < DBL_EPSILON then Some (1, out)
     else if Max (set durations) > Min (set periods) \<or> Min (set durations) < DBL_EPSILON then Some (2, out)
     else if oversample = 0 then None
     else if \<not> durations_index_alloc e then Some (- 1, out)
     else case mean_y_0_alloc e of None \<Rightarrow> Some (- 2, out) | Some mem_y \<Rightarrow>
          case mean_ivar_0_alloc e of None \<Rightarrow> Some (- 3, out) | Some mem_ivar \<Rightarrow>
            periods_loop samples (map (duration_bins (bin_duration_of durations oversample)) durations)
              oversample (accumulate samples (0, 0, 0)) obj_flag (bin_duration_of durations oversample)
              (locals_uninit e) 0 periods
              ((map mem_y [0..<nat (max_n_bins_of periods durations oversample + 1)],
                map mem_ivar [0..<nat (max_n_bins_of periods durations oversample + 1)]), out)
            \<bind> (\<lambda>(b, out'). Some (0, out')))"
  unfolding run_transit_periodogram_def bin_duration_of_def max_n_bins_of_def
  using assms
  by (simp add: list.case_eq_if minmax_hd_tl Let_def split: option.splits)

lemma run_success:
  assumes "run_transit_periodogram e samples periods durations oversample obj_flag out = Some (0, out')"
  shows "valid_grids periods durations \<and> oversample \<noteq> 0 \<and> allocations_succeed e \<and>
    (\<exists>mem_y mem_ivar b'.
       periods_loop samples (map (duration_bins (bin_duration_of durations oversample)) durations) oversample
         (accumulate samples (0, 0, 0)) obj_flag (bin_duration_of durations oversample) (locals_uninit e) 0
         periods
         ((map mem_y [0..<nat (max_n_bins_of periods durations oversample + 1)],
           map mem_ivar [0..<nat (max_n_bins_of periods durations oversample + 1)]), out) = Some (b', out'))"
proof -
  from assms have periods: "periods \<noteq> []"
    by (auto simp: run_transit_periodogram_def)
  from assms periods have "\<not> Min (set periods) < DBL_EPSILON"
    by (auto simp: run_transit_periodogram_def list.case_eq_if minmax_hd_tl)
  with assms periods have durations: "durations \<noteq> []"
    by (auto simp: run_transit_periodogram_def list.case_eq_if minmax_hd_tl)
  note run = assms [unfolded run_unfold [OF periods durations]]
  from run have checks: "\<not> Min (set periods) < DBL_EPSILON" "\<not> Max (set durations) > Min (set periods)"
    "\<not> Min (set durations) < DBL_EPSILON" "oversample \<noteq> 0" "durations_index_alloc e"
    by (simp_all split: if_splits)
  have valid: "valid_grids periods durations"
    unfolding valid_grids_def not_less [symmetric] using periods durations checks by blast
  from run checks obtain mem_y mem_ivar where
    mem: "mean_y_0_alloc e = Some mem_y" "mean_ivar_0_alloc e = Some mem_ivar"
    by (auto split: option.splits)
  from run checks mem obtain b' where
    "periods_loop samples (map (duration_bins (bin_duration_of durations oversample)) durations) oversample
         (accumulate samples (0, 0, 0)) obj_flag (bin_duration_of durations oversample) (locals_uninit e) 0
         periods
         ((map mem_y [0..<nat (max_n_bins_of periods durations oversample + 1)],
           map mem_ivar [0..<nat (max_n_bins_of periods durations oversample + 1)]), out) = Some (b', out')"
    by (auto simp: Option.bind_eq_Some_conv)
  with valid checks mem show ?thesis
    unfolding allocations_succeed_def by blast
qed


lemma DBL_EPSILON_pos: "0 < DBL_EPSILON"
  by (simp add: DBL_EPSILON_def)

lemma grid_facts:
  assumes valid: "valid_grids periods durations" and os: "1 \<le> oversample"
    and period: "period \<in> set periods"
  shows "0 < bin_duration_of durations oversample" and "0 < period"
    and "n_bins_of period (bin_duration_of durations oversample) oversample
           \<le> max_n_bins_of periods durations oversample"
    and "oversample \<le> n_bins_of period (bin_duration_of durations oversample) oversample"
proof -
  let ?bd = "bin_duration_of durations oversample"
  from valid have "0 < Min (set durations)"
    using DBL_EPSILON_pos by (simp only: valid_grids_def) linarith
  with os show bd: "0 < ?bd"
    by (simp add: bin_duration_of_def)
  from valid period have "Min (set periods) \<le> period" "period \<le> Max (set periods)"
    by simp_all
  moreover from valid have "0 < Min (set periods)"
    using DBL_EPSILON_pos by (simp only: valid_grids_def) linarith
  ultimately have pos: "0 < period" and le: "period \<le> Max (set periods)"
    by simp_all
  show "0 < period"
    by (rule pos)
  have "period / ?bd \<le> Max (set periods) / ?bd"
    using le bd by (simp add: divide_right_mono)
  moreover have q: "0 \<le> period / ?bd"
    using pos bd by simp
  ultimately have "c_trunc (period / ?bd) \<le> c_trunc (Max (set periods) / ?bd)"
    by (intro c_trunc_mono)
  then show "n_bins_of period ?bd oversample \<le> max_n_bins_of periods durations oversample"
    by (simp add: n_bins_of_def max_n_bins_of_def)
  from c_trunc_nonneg [OF q] show "oversample \<le> n_bins_of period ?bd oversample"
    by (simp add: n_bins_of_def)
qed

lemma run_defined:
  assumes valid: "valid_grids periods durations" and os: "1 \<le> oversample"
    and alloc: "allocations_succeed e"
    and fit: "outputs_fit (length periods) out"
  shows "\<exists>out'. run_transit_periodogram e samples periods durations oversample obj_flag out = Some (0, out')"
proof -
  let ?bd = "bin_duration_of durations oversample"
  let ?max = "max_n_bins_of periods durations oversample"
  from valid have ne: "periods \<noteq> []" "durations \<noteq> []"
    and checks: "\<not> Min (set periods) < DBL_EPSILON" "\<not> Max (set durations) > Min (set periods)"
      "\<not> Min (set durations) < DBL_EPSILON"
    by (simp_all only: valid_grids_def not_less) simp_all
  from alloc obtain mem_y mem_ivar where
    mem: "durations_index_alloc e" "mean_y_0_alloc e = Some mem_y" "mean_ivar_0_alloc e = Some mem_ivar"
    by (auto simp: allocations_succeed_def)
  let ?b = "(map mem_y [0..<nat (?max + 1)], map mem_ivar [0..<nat (?max + 1)])"
  obtain p0 where "p0 \<in> set periods"
    using ne by (cases periods) auto
  from grid_facts(3,4) [OF valid os this] os have max: "0 \<le> ?max"
    by simp
  have "\<exists>st'. periods_loop samples (map (duration_bins ?bd) durations) oversample
           (accumulate samples (0, 0, 0)) obj_flag ?bd (locals_uninit e) 0 periods (?b, out) = Some st'"
  proof (rule periods_loop_defined [OF grid_facts(1) [OF valid os \<open>p0 \<in> set periods\<close>] os])
    show "\<forall>period \<in> set periods. 0 < period \<and>
           n_bins_of period ?bd oversample < int (length (fst ?b)) \<and>
           n_bins_of period ?bd oversample < int (length (snd ?b))"
      using grid_facts(2,3) [OF valid os] max by fastforce
    show "\<forall>dur \<in> set (map (duration_bins ?bd) durations). 0 \<le> dur"
      using duration_bins_pos [of ?bd] by (auto intro: order_trans [of 0 1])
    show "(0::int) \<le> 0" by simp
    show "\<forall>l \<in> set (sizes out). 0 + int (length periods) \<le> int l"
      using fit by (simp add: outputs_fit_def list_all_iff)
  qed
  then obtain b' out' where
    "periods_loop samples (map (duration_bins ?bd) durations) oversample
           (accumulate samples (0, 0, 0)) obj_flag ?bd (locals_uninit e) 0 periods (?b, out) = Some (b', out')"
    by auto
  with checks os mem show ?thesis
    unfolding run_unfold [OF ne] by simp
qed

lemma run_returns:
  assumes valid: "valid_grids periods durations" and os: "1 \<le> oversample"
    and fit: "outputs_fit (length periods) out"
  shows "\<exists>status out'. run_transit_periodogram e samples periods durations oversample obj_flag out =
           Some (status, out')"
proof (cases "allocations_succeed e")
  case True
  from run_defined [OF valid os True fit] show ?thesis
    by blast
next
  case False
  from valid have ne: "periods \<noteq> []" "durations \<noteq> []"
    by (simp_all add: valid_grids_def)
  from False os show ?thesis
    unfolding run_unfold [OF ne] allocations_succeed_def
    by (auto split: option.splits)
qed

text \<open>
  In the run model, where an \<^verbatim>\<open>int\<close> is unbounded and a division exact, valid grids and
  \<open>oversample \<ge> 1\<close> keep every access to the scratch arrays inside a block of
  \<open>max_n_bins + 1\<close> elements: clearing, binning, wrap-around and the cumulative sums of a
  period succeed on any block of that length, every window read of the scan succeeds,
  and the whole run returns a status.
\<close>

lemma exact_accesses_in_bounds:
  assumes valid: "valid_grids periods durations" and os: "1 \<le> oversample"
    and period: "period \<in> set periods"
    and bd: "bin_duration = bin_duration_of durations oversample"
    and n_bins: "n_bins = n_bins_of period bin_duration oversample"
    and max_n_bins: "max_n_bins = max_n_bins_of periods durations oversample"
  shows "n_bins \<le> max_n_bins \<and>
         1 \<le> bin_index period bin_duration t \<and> bin_index period bin_duration t \<le> n_bins \<and>
         (length mean_y = nat (max_n_bins + 1) \<and> length mean_ivar = nat (max_n_bins + 1) \<longrightarrow>
            (\<exists>b. fold_period samples oversample bin_duration period (mean_y, mean_ivar) = Some b \<and>
                 (\<forall>d n. d \<in> set durations \<and> 0 \<le> n \<and> n \<le> n_bins - duration_bins bin_duration d \<longrightarrow>
                    window b sum_y sum_ivar (duration_bins bin_duration d) n \<noteq> None))) \<and>
         (outputs_fit (length periods) out \<longrightarrow>
            run_transit_periodogram e samples periods durations oversample obj_flag out \<noteq> None)"
proof -
  note g = grid_facts [OF valid os period, folded bd, folded n_bins max_n_bins]
  have le: "n_bins \<le> max_n_bins"
    by (rule g(3))
  have ind: "1 \<le> bin_index period bin_duration t \<and> bin_index period bin_duration t \<le> n_bins"
    using bin_index_bounds [OF g(2) g(1), of t] os by (simp add: n_bins n_bins_of_def)
  have scratch: "\<exists>b. fold_period samples oversample bin_duration period (mean_y, mean_ivar) = Some b \<and>
                 (\<forall>d n. d \<in> set durations \<and> 0 \<le> n \<and> n \<le> n_bins - duration_bins bin_duration d \<longrightarrow>
                    window b sum_y sum_ivar (duration_bins bin_duration d) n \<noteq> None)"
    if len: "length mean_y = nat (max_n_bins + 1)" "length mean_ivar = nat (max_n_bins + 1)"
  proof -
    from g(4) os le have room: "n_bins < int (length mean_y)" "n_bins < int (length mean_ivar)"
      by (simp_all add: len)
    from fold_period_defined [OF g(2) g(1) os room [unfolded n_bins], of samples]
    obtain b where b: "fold_period samples oversample bin_duration period (mean_y, mean_ivar) = Some b"
      by blast
    obtain cum_y cum_ivar where cum: "b = (cum_y, cum_ivar)"
      by (cases b) auto
    from fold_period_length [OF b [unfolded cum]] room
    have room': "n_bins < int (length cum_y)" "n_bins < int (length cum_ivar)"
      by simp_all
    have "window b sum_y sum_ivar (duration_bins bin_duration d) n \<noteq> None"
      if "0 \<le> n" "n \<le> n_bins - duration_bins bin_duration d" for d n
    proof -
      have "\<exists>w. window (cum_y, cum_ivar) sum_y sum_ivar (duration_bins bin_duration d) n = Some w"
        using that room' duration_bins_pos [of bin_duration d]
        by (intro window_defined) simp_all
      then show ?thesis
        by (auto simp: cum)
    qed
    with b show ?thesis
      by blast
  qed
  have run: "run_transit_periodogram e samples periods durations oversample obj_flag out \<noteq> None"
    if "outputs_fit (length periods) out"
    using run_returns [OF valid os that, of e samples obj_flag] by auto
  from le ind scratch run show ?thesis
    by blast
qed

section \<open>The scratch indices stay inside the block\<close>

lemma those_map_all:
  assumes "\<forall>x \<in> set xs. \<exists>y. f x = Some y \<and> P y"
  shows "\<exists>ys. those (map f xs) = Some ys \<and> (\<forall>y \<in> set ys. P y)"
  using assms
proof (induction xs)
  case Nil
  show ?case by simp
next
  case (Cons x xs)
  from Cons.prems obtain y where y: "f x = Some y" "P y" by auto
  from Cons.IH Cons.prems obtain ys where ys: "those (map f xs) = Some ys" "\<forall>y \<in> set ys. P y"
    by auto
  from y ys show ?case by simp
qed

lemma int_result_Some: "INT_MIN \<le> i \<Longrightarrow> i \<le> INT_MAX \<Longrightarrow> int_result i = Some i"
  by (simp add: int_result_def)

lemma int_result_eq: "int_result i = Some j \<longleftrightarrow> INT_MIN \<le> i \<and> i \<le> INT_MAX \<and> j = i"
  by (auto simp: int_result_def)

lemma INT_MIN_le: "INT_MIN \<le> - INT_MAX" "INT_MIN \<le> 0" "0 \<le> INT_MAX"
  by (simp_all add: INT_MIN_def INT_MAX_def)

lemma c_round_bounds:
  assumes "0 \<le> x" and "x \<le> y"
  shows "0 \<le> c_round x" and "c_round x \<le> c_trunc y + 1"
proof -
  from assms(1) show "0 \<le> c_round x"
    by (simp add: c_round_def)
  have "\<lfloor>x + 1 / 2\<rfloor> \<le> \<lfloor>y + 1\<rfloor>"
    using assms(2) by (intro floor_mono) simp
  with assms show "c_round x \<le> c_trunc y + 1"
    by (simp add: c_round_def c_trunc_def)
qed

text \<open>
  The quotient of two numbers \<open>0 \<le> x \<le> y\<close> by a positive \<open>bin_duration\<close> converts to an
  \<^verbatim>\<open>int\<close> between 0 and the conversion of the quotient of \<open>y\<close>, when the latter is defined.
\<close>

lemma cast_quotient_mono:
  assumes rnd: "mono rnd" "rnd 0 = 0" and bd: "0 < bd" and x: "0 \<le> x" "x \<le> y"
    and Q: "cast_quotient rnd (Number y) bd = Some Q"
  shows "\<exists>q. cast_quotient rnd (Number x) bd = Some q \<and> 0 \<le> q \<and> q \<le> Q"
proof -
  from bd x have "0 \<le> x / bd" "x / bd \<le> y / bd"
    by (simp_all add: divide_right_mono)
  with rnd have r: "0 \<le> rnd (x / bd)" "rnd (x / bd) \<le> rnd (y / bd)"
    using monoD [of rnd 0 "x / bd"] monoD [of rnd "x / bd" "y / bd"] by simp_all
  then have t: "0 \<le> c_trunc (rnd (x / bd))" "c_trunc (rnd (x / bd)) \<le> c_trunc (rnd (y / bd))"
    by (simp_all add: c_trunc_nonneg c_trunc_mono)
  from Q bd have "Q = c_trunc (rnd (y / bd))" "Q \<le> INT_MAX"
    by (simp_all add: cast_quotient_def int_result_eq)
  with t bd show ?thesis
    using INT_MIN_le by (simp add: cast_quotient_def int_result_eq)
qed

lemma duration_bins_c_bounds:
  assumes rnd: "mono rnd" "rnd 0 = 0" and bd: "0 < bd" and x: "0 \<le> x" "x \<le> y"
    and Q: "cast_quotient rnd (Number y) bd = Some Q" "Q + 1 \<le> INT_MAX"
  shows "\<exists>dur. duration_bins_c rnd bd (Number x) = Some dur \<and> 1 \<le> dur \<and> dur \<le> Q + 1"
proof -
  from bd x have "0 \<le> x / bd" "x / bd \<le> y / bd"
    by (simp_all add: divide_right_mono)
  with rnd have r: "0 \<le> rnd (x / bd)" "rnd (x / bd) \<le> rnd (y / bd)"
    using monoD [of rnd 0 "x / bd"] monoD [of rnd "x / bd" "y / bd"] by simp_all
  from Q bd have Q': "Q = c_trunc (rnd (y / bd))"
    by (simp add: cast_quotient_def int_result_eq)
  from r have c: "0 \<le> c_round (rnd (x / bd))" "c_round (rnd (x / bd)) \<le> Q + 1"
    unfolding Q' by (rule c_round_bounds)+
  with Q(2) have "int_result (c_round (rnd (x / bd))) = Some (c_round (rnd (x / bd)))"
    using INT_MIN_le by (simp add: int_result_eq)
  with c bd Q'
  have "duration_bins_c rnd bd (Number x)
          = Some (if c_round (rnd (x / bd)) \<le> 0 then 1 else c_round (rnd (x / bd)))"
    by (simp add: duration_bins_c_def)
  moreover from r(2) have "0 \<le> Q" if "c_round (rnd (x / bd)) \<le> 0"
    using r(1) c_trunc_nonneg [of "rnd (y / bd)"] unfolding Q' by simp
  ultimately show ?thesis
    using c by auto
qed

lemma window_indices_bounds:
  assumes n_bins: "0 \<le> n_bins" "n_bins \<le> INT_MAX" and dur: "1 \<le> dur" "dur \<le> INT_MAX"
  shows "\<exists>is. window_indices n_bins dur = Some is \<and> (\<forall>i \<in> set is. 0 \<le> i \<and> i \<le> n_bins)"
proof -
  from assms have "int_result (n_bins - dur) = Some (n_bins - dur)"
    using INT_MIN_le by (simp add: int_result_eq)
  with dur show ?thesis
    by (auto simp: window_indices_def)
qed

text \<open>
  The machine-level expressions are the expressions of the run model, when they
  are defined and the divisions are exact.
\<close>

lemma n_bins_c_exact:
  "n_bins_c id (Number period) bin_duration oversample = Some n_bins \<Longrightarrow>
     n_bins = n_bins_of period bin_duration oversample"
  by (auto simp: n_bins_c_def cast_quotient_def n_bins_of_def int_result_eq
      Option.bind_eq_Some_conv split: if_splits)

lemma bin_index_c_exact:
  "bin_index_c id (Number period) bin_duration (Number t) = Some ind \<Longrightarrow>
     ind = bin_index period bin_duration t"
  by (auto simp: bin_index_c_def cast_quotient_def bin_index_def int_result_eq
      Option.bind_eq_Some_conv split: if_splits)

lemma duration_bins_c_exact:
  "duration_bins_c id bin_duration (Number d) = Some dur \<Longrightarrow> dur = duration_bins bin_duration d"
  by (auto simp: duration_bins_c_def duration_bins_def int_result_eq Let_def
      Option.bind_eq_Some_conv split: if_splits)

lemma machine_grid_facts:
  assumes valid: "valid_grids periods durations" and os: "1 \<le> oversample"
    and rnd: "mono rnd" "rnd 0 = 0"
    and bd: "bin_duration = rnd (Min (set durations) / of_int oversample)"
    and blocksize: "blocksize_c rnd periods bin_duration oversample = Some blocksize"
  shows "\<exists>Q. 0 < bin_duration \<and>
           cast_quotient rnd (Number (Max (set periods))) bin_duration = Some Q \<and>
           0 \<le> Q \<and> Q + oversample + 1 \<le> INT_MAX \<and> blocksize = Q + oversample + 1 \<and>
           (\<forall>period \<in> set periods. 0 < period \<and> period \<le> Max (set periods)) \<and>
           (\<forall>d \<in> set durations. 0 < d \<and> d \<le> Max (set periods))"
proof -
  from valid have ne: "periods \<noteq> []" "durations \<noteq> []"
    and eps: "DBL_EPSILON \<le> Min (set periods)" "DBL_EPSILON \<le> Min (set durations)"
    and dp: "Max (set durations) \<le> Min (set periods)"
    unfolding valid_grids_def by blast+
  from eps have min_p: "0 < Min (set periods)" and min_d: "0 < Min (set durations)"
    using DBL_EPSILON_pos by linarith+
  from blocksize obtain Q where Q: "cast_quotient rnd (Number (Max (set periods))) bin_duration = Some Q"
    and sz: "Q + oversample \<le> INT_MAX" "Q + oversample + 1 \<le> INT_MAX" "blocksize = Q + oversample + 1"
    by (auto simp: blocksize_c_def n_bins_c_def int_result_eq Option.bind_eq_Some_conv)
  from Q have nz: "bin_duration \<noteq> 0"
    by (auto simp: cast_quotient_def split: if_splits)
  from min_d os have "0 \<le> Min (set durations) / of_int oversample"
    by simp
  with rnd have "0 \<le> bin_duration"
    unfolding bd using monoD [of rnd 0 "Min (set durations) / of_int oversample"] by simp
  with nz have pos: "0 < bin_duration"
    by simp
  have periods: "0 < period \<and> period \<le> Max (set periods)" if "period \<in> set periods" for period
  proof -
    from that have "Min (set periods) \<le> period" "period \<le> Max (set periods)"
      by simp_all
    with min_p show ?thesis
      by simp
  qed
  have durations: "0 < d \<and> d \<le> Max (set periods)" if "d \<in> set durations" for d
  proof -
    from that have "Min (set durations) \<le> d" "d \<le> Max (set durations)"
      by simp_all
    moreover from ne have "Min (set periods) \<le> Max (set periods)"
      by simp
    ultimately show ?thesis
      using min_d dp by simp
  qed
  from ne have "Min (set periods) \<le> Max (set periods)"
    by simp
  with min_p have "0 \<le> Max (set periods)"
    by linarith
  with rnd pos Q have "0 \<le> Q"
    using cast_quotient_mono [of rnd bin_duration 0 "Max (set periods)" Q] by auto
  with pos Q sz periods durations show ?thesis
    by (intro exI [of _ Q]) blast
qed

text \<open>
  C9 (as amended). Let range validation succeed on grids of finite doubles, let
  \<open>oversample \<ge> 1\<close>, let every timestamp be a finite double, and let the block size
  \<open>max_n_bins + 1\<close> of lines 83 and 91 be defined, that is, computed without a conversion
  or an addition that leaves the range of \<^verbatim>\<open>int\<close>. Then for every period of the grid, and
  for every rounding of the \<^verbatim>\<open>double\<close> divisions that is monotone and maps 0 to 0,
  \<open>n_bins\<close> is defined and at most \<open>max_n_bins\<close>, the bin index of every sample is defined
  and lies in \<open>[1, n_bins]\<close>, and every index at which the scratch arrays are read or
  written (clearing, binning, wrap-around, cumulative sums, window differences) is
  defined and lies in \<open>[0, max_n_bins]\<close>, inside the block of \<open>max_n_bins + 1\<close> doubles.
\<close>

theorem scratch_indices_in_block:
  assumes valid: "valid_grids periods durations" and os: "1 \<le> oversample"
    and rnd: "mono rnd" "rnd 0 = 0"
    and bd: "bin_duration = rnd (Min (set durations) / of_int oversample)"
    and blocksize: "blocksize_c rnd periods bin_duration oversample = Some blocksize"
    and period: "period \<in> set periods"
  shows "\<exists>max_n_bins n_bins is.
           n_bins_c rnd (Number (Max (set periods))) bin_duration oversample = Some max_n_bins \<and>
           blocksize = max_n_bins + 1 \<and>
           n_bins_c rnd (Number period) bin_duration oversample = Some n_bins \<and>
           n_bins \<le> max_n_bins \<and>
           (\<forall>t. \<exists>ind. bin_index_c rnd (Number period) bin_duration (Number t) = Some ind \<and>
                  1 \<le> ind \<and> ind \<le> n_bins) \<and>
           scratch_indices rnd (map Number ts) (map Number durations) oversample bin_duration
               (Number period) = Some is \<and>
           (\<forall>i \<in> set is. 0 \<le> i \<and> i \<le> max_n_bins)"
proof -
  from valid os rnd bd blocksize obtain Q where pos: "0 < bin_duration"
    and Q: "cast_quotient rnd (Number (Max (set periods))) bin_duration = Some Q"
    and Q0: "0 \<le> Q" and sz: "Q + oversample + 1 \<le> INT_MAX" and bs: "blocksize = Q + oversample + 1"
    and periods: "\<forall>period \<in> set periods. 0 < period \<and> period \<le> Max (set periods)"
    and durations: "\<forall>d \<in> set durations. 0 < d \<and> d \<le> Max (set periods)"
    using machine_grid_facts [of periods durations oversample rnd bin_duration blocksize] by blast
  from periods period have p: "0 < period" "period \<le> Max (set periods)"
    by simp_all
  from rnd pos p Q obtain q where q: "cast_quotient rnd (Number period) bin_duration = Some q"
    and q0: "0 \<le> q" and qQ: "q \<le> Q"
    using cast_quotient_mono [of rnd bin_duration period "Max (set periods)" Q] by auto
  define max_n_bins where "max_n_bins = Q + oversample"
  define n_bins where "n_bins = q + oversample"
  from Q Q0 os sz have M: "n_bins_c rnd (Number (Max (set periods))) bin_duration oversample = Some max_n_bins"
    using INT_MIN_le by (simp add: n_bins_c_def max_n_bins_def int_result_eq)
  from q q0 qQ os sz have N: "n_bins_c rnd (Number period) bin_duration oversample = Some n_bins"
    using INT_MIN_le by (simp add: n_bins_c_def n_bins_def int_result_eq)
  from qQ have le: "n_bins \<le> max_n_bins"
    by (simp add: n_bins_def max_n_bins_def)
  from q0 os have n_pos: "oversample \<le> n_bins" "1 \<le> n_bins"
    by (simp_all add: n_bins_def)
  from le sz have n_max: "n_bins + 1 \<le> INT_MAX"
    by (simp add: max_n_bins_def)
  have index: "\<exists>ind. bin_index_c rnd (Number period) bin_duration (Number t) = Some ind \<and>
                 1 \<le> ind \<and> ind \<le> n_bins" for t
  proof -
    have "0 \<le> fabs (fmod t period)"
      by (simp add: fabs_def)
    moreover from p(1) have "fabs (fmod t period) \<le> period"
      using fmod_bound [of period t] by simp
    ultimately obtain i where i: "cast_quotient rnd (Number (fabs (fmod t period))) bin_duration = Some i"
      and i0: "0 \<le> i" and iq: "i \<le> q"
      using cast_quotient_mono [of rnd bin_duration "fabs (fmod t period)" period q] rnd pos q
      by auto
    from i0 iq qQ sz os have "int_result (i + 1) = Some (i + 1)"
      using INT_MIN_le by (simp add: int_result_eq)
    with i p(1) have "bin_index_c rnd (Number period) bin_duration (Number t) = Some (i + 1)"
      by (simp add: bin_index_c_def)
    with i0 iq os show ?thesis
      by (simp add: n_bins_def)
  qed
  then have "\<forall>t \<in> set (map Number ts). \<exists>ind.
      bin_index_c rnd (Number period) bin_duration t = Some ind \<and> 1 \<le> ind \<and> ind \<le> n_bins"
    by auto
  then obtain binned
    where binned: "those (map (bin_index_c rnd (Number period) bin_duration) (map Number ts)) = Some binned"
      and binned_le: "\<forall>ind \<in> set binned. 1 \<le> ind \<and> ind \<le> n_bins"
    using those_map_all [of "map Number ts" "bin_index_c rnd (Number period) bin_duration"
        "\<lambda>ind. 1 \<le> ind \<and> ind \<le> n_bins"] by blast
  have "\<forall>d \<in> set (map Number durations). \<exists>dur.
      duration_bins_c rnd bin_duration d = Some dur \<and> 1 \<le> dur \<and> dur \<le> INT_MAX"
  proof
    fix d
    assume "d \<in> set (map Number durations)"
    then obtain x where x: "d = Number x" "x \<in> set durations"
      by auto
    from durations x(2) have "0 \<le> x" "x \<le> Max (set periods)"
      by auto
    with rnd pos Q sz os
    obtain dur where "duration_bins_c rnd bin_duration (Number x) = Some dur" "1 \<le> dur" "dur \<le> Q + 1"
      using duration_bins_c_bounds [of rnd bin_duration x "Max (set periods)" Q] by auto
    with x sz os show "\<exists>dur. duration_bins_c rnd bin_duration d = Some dur \<and> 1 \<le> dur \<and> dur \<le> INT_MAX"
      by auto
  qed
  then obtain durs
    where durs: "those (map (duration_bins_c rnd bin_duration) (map Number durations)) = Some durs"
      and durs_le: "\<forall>dur \<in> set durs. 1 \<le> dur \<and> dur \<le> INT_MAX"
    using those_map_all [of "map Number durations" "duration_bins_c rnd bin_duration"
        "\<lambda>dur. 1 \<le> dur \<and> dur \<le> INT_MAX"] by blast
  have "\<forall>dur \<in> set durs. \<exists>is. window_indices n_bins dur = Some is \<and>
      (\<forall>i \<in> set is. 0 \<le> i \<and> i \<le> n_bins)"
    using durs_le n_pos n_max window_indices_bounds [of n_bins] by simp
  then obtain windows
    where windows: "those (map (window_indices n_bins) durs) = Some windows"
      and windows_le: "\<forall>is \<in> set windows. \<forall>i \<in> set is. 0 \<le> i \<and> i \<le> n_bins"
    using those_map_all [of durs "window_indices n_bins"
        "\<lambda>is. \<forall>i \<in> set is. 0 \<le> i \<and> i \<le> n_bins"] by blast
  define "is" where "is = [0..n_bins] @ binned @
      concat (map (\<lambda>n. [n, (n_bins - oversample) + (n - 1)]) [1..oversample]) @
      concat (map (\<lambda>n. [n, n - 1]) [1..n_bins]) @ concat windows"
  from n_pos n_max os have "int_result (n_bins + 1) = Some (n_bins + 1)"
    "int_result (n_bins - oversample) = Some (n_bins - oversample)"
    "int_result (oversample + 1) = Some (oversample + 1)"
    using INT_MIN_le by (simp_all add: int_result_eq)
  with N binned durs windows
  have S: "scratch_indices rnd (map Number ts) (map Number durations) oversample bin_duration
             (Number period) = Some is"
    by (simp add: scratch_indices_def is_def)
  have "0 \<le> i \<and> i \<le> n_bins" if "i \<in> set is" for i
    using that binned_le windows_le n_pos os unfolding is_def by auto
  with le have "\<forall>i \<in> set is. 0 \<le> i \<and> i \<le> max_n_bins"
    by fastforce
  moreover from index
  have "\<forall>t. \<exists>ind. bin_index_c rnd (Number period) bin_duration (Number t) = Some ind \<and>
          1 \<le> ind \<and> ind \<le> n_bins"
    by blast
  moreover from bs have "blocksize = max_n_bins + 1"
    by (simp add: max_n_bins_def)
  ultimately show ?thesis
    using M N le S by blast
qed

theorem scratch_indices_in_block_witness:
  "valid_grids [3] [1] \<and> (1::int) \<le> 1 \<and> mono (id :: real \<Rightarrow> real) \<and> id (0::real) = 0 \<and>
   blocksize_c id [3] (id (Min (set [1]) / of_int 1)) 1 = Some 5 \<and> (3::real) \<in> set [3] \<and>
   n_bins_c id (Number (Max (set [3]))) (id (Min (set [1]) / of_int 1)) 1 = Some 4 \<and>
   n_bins_c id (Number 3) (id (Min (set [1]) / of_int 1)) 1 = Some 4 \<and>
   bin_index_c id (Number 3) (id (Min (set [1]) / of_int 1)) (Number (5 / 2)) = Some 3 \<and>
   scratch_indices id (map Number [1 / 2, 3 / 2, 5 / 2]) (map Number [1]) 1
       (id (Min (set [1]) / of_int 1)) (Number 3)
     = Some ([0, 1, 2, 3, 4] @ [1, 2, 3] @ [1, 3] @ [1, 0, 2, 1, 3, 2, 4, 3] @
             [1, 0, 2, 1, 3, 2, 4, 3])"
proof -
  have valid: "valid_grids [3] [1]"
    by (simp add: valid_grids_def DBL_EPSILON_def)
  have blocksize: "blocksize_c id [3] (id (Min (set [1]) / of_int 1)) 1 = Some 5"
    by (simp add: blocksize_c_def n_bins_c_def cast_quotient_def int_result_def c_trunc_def
        INT_MIN_def INT_MAX_def)
  have index: "bin_index_c id (Number 3) (id (Min (set [1]) / of_int 1)) (Number (5 / 2)) = Some 3"
    by (simp add: bin_index_c_def cast_quotient_def int_result_def c_trunc_def fmod_def fabs_def
        INT_MIN_def INT_MAX_def)
  have trace: "scratch_indices id (map Number [1 / 2, 3 / 2, 5 / 2]) (map Number [1]) 1
       (id (Min (set [1]) / of_int 1)) (Number 3)
     = Some ([0, 1, 2, 3, 4] @ [1, 2, 3] @ [1, 3] @ [1, 0, 2, 1, 3, 2, 4, 3] @
             [1, 0, 2, 1, 3, 2, 4, 3])"
    by (simp add: scratch_indices_def n_bins_c_def bin_index_c_def duration_bins_c_def
        window_indices_def cast_quotient_def int_result_def c_trunc_def c_round_def fmod_def
        fabs_def INT_MIN_def INT_MAX_def upto_rec1)
  have exact: "mono (id :: real \<Rightarrow> real)"
    by (rule monoI) simp
  from scratch_indices_in_block [OF valid _ exact _ refl blocksize, of 3 "[1 / 2, 3 / 2, 5 / 2]"]
    valid blocksize exact index trace
  show ?thesis
    by auto
qed

text \<open>
  The two conditions are needed. The grids \<open>periods = [10^10]\<close>, \<open>durations = [1]\<close> pass
  range validation, and with \<open>oversample = 1\<close> line 83 converts the double \<open>10^10\<close> to
  \<^verbatim>\<open>int\<close>, which is undefined: there is no \<open>max_n_bins\<close>. With the grids \<open>[3]\<close> and \<open>[1]\<close>
  the block has 5 entries, and line 147 converts a NaN to \<^verbatim>\<open>int\<close> for a sample whose
  timestamp is a NaN: the index of that sample is undefined.
\<close>

theorem scratch_index_undefined:
  "valid_grids [10 ^ 10] [1] \<and> (1::int) \<le> 1 \<and>
   blocksize_c id [10 ^ 10] (id (Min (set [1]) / of_int 1)) 1 = None \<and>
   valid_grids [3] [1] \<and>
   blocksize_c id [3] (id (Min (set [1]) / of_int 1)) 1 = Some 5 \<and>
   scratch_indices id [NaN] [Number 1] 1 (id (Min (set [1]) / of_int 1)) (Number 3) = None"
  by (simp add: valid_grids_def DBL_EPSILON_def blocksize_c_def scratch_indices_def n_bins_c_def
      bin_index_c_def cast_quotient_def int_result_def c_trunc_def INT_MIN_def INT_MAX_def)

section \<open>Sign of the depth statistics\<close>

lemma not_skipped_pos:
  assumes "\<not> skipped (y_in, ivar_in, y_out, ivar_out)"
  shows "0 < ivar_in" and "0 < ivar_out" and "0 < sqrt (1 / ivar_in + 1 / ivar_out)"
proof -
  from assms show pos: "0 < ivar_in" "0 < ivar_out"
    using DBL_EPSILON_pos by (auto simp: skipped_def)
  then show "0 < sqrt (1 / ivar_in + 1 / ivar_out)"
    by (simp add: add_pos_pos)
qed

lemma candidate_depth_sign:
  assumes step: "candidate b s obj_flag bin_duration period p dur n (loc, out) = Some (loc', out')"
    and inv: "best_objective out ! nat p = MinusInfinity \<or>
              (0 < best_depth_err out ! nat p \<and> 0 \<le> best_depth_snr out ! nat p)"
  shows "best_objective out' ! nat p = MinusInfinity \<or>
         (0 < best_depth_err out' ! nat p \<and> 0 \<le> best_depth_snr out' ! nat p)"
proof -
  obtain sum_y2 sum_y sum_ivar where s: "s = (sum_y2, sum_y, sum_ivar)"
    by (cases s) auto
  from candidate_Some [OF step [unfolded s]]
  consider "out' = out"
    | w r where "\<not> skipped w" "flux_in w \<le> flux_out w"
        "evaluate (sum_y2, sum_y, sum_ivar) obj_flag w loc = Some r"
        "accept (sum_y2, sum_y, sum_ivar) obj_flag bin_duration period p dur n w (r, out) = Some (loc', out')"
    by (auto split: if_splits)
  then show ?thesis
  proof cases
    case 1
    with inv show ?thesis by simp
  next
    case 2
    obtain y_in ivar_in y_out ivar_out where w: "w = (y_in, ivar_in, y_out, ivar_out)"
      by (cases w) auto
    note a = accept_Some [OF 2(4)]
    from a have second: "evaluate (sum_y2, sum_y, sum_ivar) (if obj_flag = 0 then 1 else 0) w r = Some loc'"
      by blast
    note ev = both_evaluations(2,3) [OF 2(3) [unfolded w] second [unfolded w]]
    note pos = not_skipped_pos(3) [OF 2(1) [unfolded w]]
    from 2(2) have dip: "0 \<le> y_out / ivar_out - y_in / ivar_in"
      by (simp add: w flux_in_def flux_out_def)
    from a have "best_depth_err out' ! nat p = depth_err loc'" "best_depth_snr out' ! nat p = depth_snr loc'"
      by auto
    with ev pos dip show ?thesis
      by simp
  qed
qed

lemma search_period_depth_sign:
  assumes "search_period samples durations_index oversample s obj_flag bin_duration junk p period (b, out) =
             Some (b', out')"
  shows "best_objective out' ! nat p = MinusInfinity \<or>
         (0 < best_depth_err out' ! nat p \<and> 0 \<le> best_depth_snr out' ! nat p)"
proof -
  from assms obtain bo loc where
    bo: "wr (best_objective out) p MinusInfinity = Some bo" and
    sc: "scan_durations b' s obj_flag bin_duration period p
           (n_bins_of period bin_duration oversample) durations_index
           (junk, out\<lparr>best_objective := bo\<rparr>) = Some (loc, out')"
    by (auto simp: search_period_def Option.bind_eq_Some_conv)
  let ?I = "\<lambda>st. best_objective (snd st) ! nat p = MinusInfinity \<or>
         (0 < best_depth_err (snd st) ! nat p \<and> 0 \<le> best_depth_snr (snd st) ! nat p)"
  have "?I (loc, out')"
  proof (rule scan_durations_invariant [where I = ?I, OF sc])
    from bo show "?I (junk, out\<lparr>best_objective := bo\<rparr>)"
      by (auto simp: wr_Some)
  next
    fix dur m st1 st2
    assume I: "?I st1" and c: "candidate b' s obj_flag bin_duration period p dur m st1 = Some st2"
    obtain l1 o1 l2 o2 where st: "st1 = (l1, o1)" "st2 = (l2, o2)"
      by (cases st1, cases st2) auto
    from candidate_depth_sign [OF c [unfolded st]] I show "?I st2"
      by (simp add: st)
  qed
  then show ?thesis by simp
qed

lemma run_result:
  assumes run: "run_transit_periodogram e samples periods durations oversample obj_flag out = Some (0, out')"
    and p: "p < length periods"
  shows "\<exists>b1 out1 b2 out2.
           search_period samples (map (duration_bins (bin_duration_of durations oversample)) durations)
             oversample (accumulate samples (0, 0, 0)) obj_flag (bin_duration_of durations oversample)
             (locals_uninit e) (int p) (periods ! p) (b1, out1) = Some (b2, out2) \<and>
           result_at out' p = result_at out2 p"
proof -
  from run_success [OF run] obtain mem_y mem_ivar b' where
    "periods_loop samples (map (duration_bins (bin_duration_of durations oversample)) durations) oversample
         (accumulate samples (0, 0, 0)) obj_flag (bin_duration_of durations oversample) (locals_uninit e) 0
         periods
         ((map mem_y [0..<nat (max_n_bins_of periods durations oversample + 1)],
           map mem_ivar [0..<nat (max_n_bins_of periods durations oversample + 1)]), out) = Some (b', out')"
    by blast
  from periods_loop_result [OF this order_refl p] obtain b1 out1 b2 out2 where
    "search_period samples (map (duration_bins (bin_duration_of durations oversample)) durations)
             oversample (accumulate samples (0, 0, 0)) obj_flag (bin_duration_of durations oversample)
             (locals_uninit e) (0 + int p) (periods ! p) (b1, out1) = Some (b2, out2)"
    "result_at out' (nat 0 + p) = result_at out2 (nat 0 + p)"
    by blast
  then show ?thesis
    by (intro exI [of _ b1] exI [of _ out1] exI [of _ b2] exI [of _ out2]) simp
qed


lemmas run_eval_simps =
  run_transit_periodogram_def env_ok_def outputs_zero_def DBL_EPSILON_def duration_bins_def c_round_def
  search_period_def fold_period_def n_bins_of_def c_trunc_def wr_def rd_def bin_index_def fmod_def fabs_def
  clear_bins.simps wrap_bins.simps cumulate.simps scan_phases.simps
  candidate_def window_def skipped_def evaluate_def flux_in_def flux_out_def
  compute_objective_def accept_def Let_def

lemma example_run:
  "run_transit_periodogram env_ok [(1 / 2, 1, 1), (3 / 2, 5, 1), (5 / 2, 2, 1)] [3] [1] 1 1 (outputs_zero 1) =
     Some (0, \<lparr>best_objective = [Finite (- 9 / 4)], best_depth = [5 / 2], best_depth_err = [sqrt (3 / 2)],
       best_duration = [1], best_phase = [1 / 2], best_depth_snr = [5 / 2 / sqrt (3 / 2)],
       best_log_like = [- 9 / 4]\<rparr>)"
  by (simp add: run_eval_simps)

text \<open>
  C8 (as amended). The evaluator's \<open>depth_snr\<close> is \<open>depth / depth_err\<close> and has the sign of
  \<open>y_out - y_in\<close>: for \<open>y_in = 1\<close>, \<open>y_out = 0\<close> and unit weights it is \<open>- 1 / sqrt 2\<close>.
  What holds: when \<open>ivar_in\<close> and \<open>ivar_out\<close> exceed
  \<open>DBL_EPSILON\<close>, the depth branch of the evaluator is defined, its \<open>depth_err\<close> is
  positive, and its \<open>depth_snr\<close> is non-negative exactly when \<open>y_out \<ge> y_in\<close>; and after a
  successful run, for either flag, every period with an accepted best has
  \<open>best_depth_err[p] > 0\<close> and \<open>best_depth_snr[p] \<ge> 0\<close>.
\<close>

theorem depth_statistics_sign:
  "(DBL_EPSILON < ivar_in \<and> DBL_EPSILON < ivar_out \<longrightarrow>
      (\<exists>r. compute_objective y_in y_out ivar_in ivar_out sum_y2 sum_y sum_ivar 0 loc = Some r \<and>
           0 < depth_err r \<and> (0 \<le> depth_snr r \<longleftrightarrow> y_in \<le> y_out))) \<and>
   (run_transit_periodogram e samples periods durations oversample obj_flag out = Some (0, out') \<and>
    p < length periods \<and> best_objective out' ! p \<noteq> MinusInfinity \<longrightarrow>
      0 < best_depth_err out' ! p \<and> 0 \<le> best_depth_snr out' ! p)"
proof (intro conjI impI)
  assume "DBL_EPSILON < ivar_in \<and> DBL_EPSILON < ivar_out"
  then have pos: "0 < ivar_in" "0 < ivar_out"
    using DBL_EPSILON_pos by simp_all
  then have "0 < sqrt (1 / ivar_in + 1 / ivar_out)"
    by (simp add: add_pos_pos)
  then show "\<exists>r. compute_objective y_in y_out ivar_in ivar_out sum_y2 sum_y sum_ivar 0 loc = Some r \<and>
           0 < depth_err r \<and> (0 \<le> depth_snr r \<longleftrightarrow> y_in \<le> y_out)"
    by (simp add: compute_objective_depth [OF pos] zero_le_divide_iff)
next
  assume a: "run_transit_periodogram e samples periods durations oversample obj_flag out = Some (0, out') \<and>
    p < length periods \<and> best_objective out' ! p \<noteq> MinusInfinity"
  then have run: "run_transit_periodogram e samples periods durations oversample obj_flag out = Some (0, out')"
    and p: "p < length periods" and acc: "best_objective out' ! p \<noteq> MinusInfinity"
    by simp_all
  from run_result [OF run p] obtain b1 out1 b2 out2 where
    sp: "search_period samples (map (duration_bins (bin_duration_of durations oversample)) durations)
             oversample (accumulate samples (0, 0, 0)) obj_flag (bin_duration_of durations oversample)
             (locals_uninit e) (int p) (periods ! p) (b1, out1) = Some (b2, out2)"
    and res: "result_at out' p = result_at out2 p"
    by blast
  from search_period_depth_sign [OF sp] res acc
  have "0 < best_depth_err out' ! p \<and> 0 \<le> best_depth_snr out' ! p"
    by (simp add: result_at_def)
  then show "0 < best_depth_err out' ! p" and "0 \<le> best_depth_snr out' ! p"
    by simp_all
qed

theorem depth_statistics_sign_witness:
  "DBL_EPSILON < 1 \<and>
   (\<exists>r. compute_objective 1 3 1 1 0 0 0 0 (locals_uninit env_ok) = Some r \<and> 0 < depth_err r \<and> 0 \<le> depth_snr r) \<and>
   (\<exists>out'. run_transit_periodogram env_ok [(1 / 2, 1, 1), (3 / 2, 5, 1), (5 / 2, 2, 1)] [3] [1] 1 1
             (outputs_zero 1) = Some (0, out') \<and>
           best_objective out' ! 0 \<noteq> MinusInfinity \<and>
           0 < best_depth_err out' ! 0 \<and> 0 \<le> best_depth_snr out' ! 0)"
proof -
  have eps: "DBL_EPSILON < 1"
    by (simp add: DBL_EPSILON_def)
  note inst = depth_statistics_sign [of 1 1 1 3 0 0 0 "locals_uninit env_ok" env_ok
      "[(1 / 2, 1, 1), (3 / 2, 5, 1), (5 / 2, 2, 1)]" "[3]" "[1]" 1 1 "outputs_zero 1" _ 0]
  from inst eps example_run show ?thesis
    by auto
qed

theorem evaluator_depth_snr_negative:
  "DBL_EPSILON < 1 \<and>
   compute_objective 1 0 1 1 0 0 0 0
     \<lparr>objective = 0, log_likelihood = 0, depth = 0, depth_err = 0, depth_snr = 0\<rparr> =
     Some \<lparr>objective = - 1 / sqrt 2, log_likelihood = 0, depth = - 1, depth_err = sqrt 2,
           depth_snr = - 1 / sqrt 2\<rparr> \<and>
   - 1 / sqrt 2 < (0::real)"
  by (simp add: DBL_EPSILON_def compute_objective_def)

section \<open>The best of a period\<close>

lemma clear_bins_room:
  assumes "clear_bins n_bins n (mean_y, mean_ivar) = Some b'" and "0 \<le> n" and "n \<le> n_bins"
  shows "n_bins < int (length mean_y) \<and> n_bins < int (length mean_ivar)"
  using assms
proof (induction n_bins n "(mean_y, mean_ivar)" arbitrary: mean_y mean_ivar rule: clear_bins.induct)
  case (1 n_bins n mean_y mean_ivar)
  from "1.prems" have lt: "n < n_bins + 1" by simp
  with "1.prems"(1) obtain y1 i1 where
    y1: "wr mean_y n 0 = Some y1" and i1: "wr mean_ivar n 0 = Some i1" and
    rest: "clear_bins n_bins (n + 1) (y1, i1) = Some b'"
    by (auto simp: clear_bins.simps [of n_bins n] Option.bind_eq_Some_conv)
  show ?case
  proof (cases "n = n_bins")
    case True
    with y1 i1 show ?thesis
      by (auto simp: wr_Some)
  next
    case False
    with "1.prems" have "0 \<le> n + 1" "n + 1 \<le> n_bins" by simp_all
    from "1.hyps" [OF lt y1 i1 rest this] y1 i1 show ?thesis
      by (auto simp: wr_Some)
  qed
qed

lemma fold_period_room:
  assumes "fold_period samples oversample bin_duration period b0 = Some (mean_y, mean_ivar)"
    and "0 \<le> n_bins_of period bin_duration oversample"
  shows "n_bins_of period bin_duration oversample < int (length mean_y)"
    and "n_bins_of period bin_duration oversample < int (length mean_ivar)"
proof -
  let ?n = "n_bins_of period bin_duration oversample"
  obtain y0 i0 where b0: "b0 = (y0, i0)"
    by (cases b0) auto
  from assms(1) obtain b1 where c: "clear_bins ?n 0 (y0, i0) = Some b1"
    by (auto simp: fold_period_def b0 Let_def Option.bind_eq_Some_conv)
  from clear_bins_room [OF c order_refl assms(2)] fold_period_length [OF assms(1) [unfolded b0]]
  show "?n < int (length mean_y)" and "?n < int (length mean_ivar)"
    by simp_all
qed

lemma fold_period_windows:
  assumes a: "fold_period samples oversample bin_duration period b0 = Some b"
    and a': "fold_period samples oversample bin_duration period b0' = Some b'"
    and os: "oversample \<le> n_bins_of period bin_duration oversample"
    and n: "0 \<le> n" and dur: "0 \<le> dur" and le: "n + dur \<le> n_bins_of period bin_duration oversample"
  shows "window b sum_y sum_ivar dur n = window b' sum_y sum_ivar dur n"
    and "\<exists>w. window b sum_y sum_ivar dur n = Some w"
proof -
  let ?n = "n_bins_of period bin_duration oversample"
  obtain y0 i0 z0 j0 where b0: "b0 = (y0, i0)" "b0' = (z0, j0)"
    by (cases b0, cases b0') auto
  obtain mean_y mean_ivar other_y other_ivar where b: "b = (mean_y, mean_ivar)" "b' = (other_y, other_ivar)"
    by (cases b, cases b') auto
  have nn: "0 \<le> ?n"
    using n dur le by simp
  note room = fold_period_room [OF a [unfolded b] nn] fold_period_room [OF a' [unfolded b] nn]
  note agree = fold_period_agree [OF a [unfolded b0 b] a' [unfolded b0 b] os]
  have i1: "int (nat n) \<le> ?n" and i2: "int (nat (n + dur)) \<le> ?n"
    using n dur le by simp_all
  from agree [OF i1] agree [OF i2] room n dur le
  show "window b sum_y sum_ivar dur n = window b' sum_y sum_ivar dur n"
    by (simp add: window_def b rd_in_range)
  from room n dur le show "\<exists>w. window b sum_y sum_ivar dur n = Some w"
    unfolding b by (intro window_defined) simp_all
qed

lemma candidate_mono:
  assumes step: "candidate b s obj_flag bin_duration period p dur n (loc, out) = Some (loc', out')"
    and le: "\<not> exceeds x (best_objective out ! nat p)"
  shows "\<not> exceeds x (best_objective out' ! nat p)"
proof -
  obtain sum_y2 sum_y sum_ivar where s: "s = (sum_y2, sum_y, sum_ivar)"
    by (cases s) auto
  from candidate_Some [OF step [unfolded s]]
  consider "out' = out"
    | w r best where "rd (best_objective out) p = Some best" "exceeds (objective r) best"
        "accept (sum_y2, sum_y, sum_ivar) obj_flag bin_duration period p dur n w (r, out) = Some (loc', out')"
    by (auto split: if_splits)
  then show ?thesis
  proof cases
    case 1
    with le show ?thesis by simp
  next
    case 2
    from 2(1) have best: "best_objective out ! nat p = best"
      by (simp add: rd_Some)
    from accept_Some [OF 2(3)] have new: "best_objective out' ! nat p = Finite (objective r)"
      by auto
    from le 2(2) show ?thesis
      unfolding new best by (cases best) auto
  qed
qed

lemma candidate_cover:
  assumes step: "candidate b (sum_y2, sum_y, sum_ivar) obj_flag bin_duration period p dur n (loc, out) =
                   Some (loc', out')"
    and w: "window b sum_y sum_ivar dur n = Some w" "\<not> skipped w" "flux_in w \<le> flux_out w"
    and r0: "evaluate (sum_y2, sum_y, sum_ivar) obj_flag w loc0 = Some r0"
  shows "\<not> exceeds (objective r0) (best_objective out' ! nat p)"
proof -
  from candidate_Some [OF step] w obtain r best where
    r: "evaluate (sum_y2, sum_y, sum_ivar) obj_flag w loc = Some r" and
    best: "rd (best_objective out) p = Some best" and
    rest: "if exceeds (objective r) best
           then accept (sum_y2, sum_y, sum_ivar) obj_flag bin_duration period p dur n w (r, out) = Some (loc', out')
           else loc' = r \<and> out' = out"
    by auto
  have obj: "objective r0 = objective r"
    by (rule evaluate_objective_indep [OF r0 r])
  show ?thesis
  proof (cases "exceeds (objective r) best")
    case True
    with rest accept_Some [of "(sum_y2, sum_y, sum_ivar)" obj_flag bin_duration period p dur n w r out loc' out']
    have "best_objective out' ! nat p = Finite (objective r)"
      by auto
    then show ?thesis
      by (simp add: obj)
  next
    case False
    with rest best show ?thesis
      by (simp add: obj rd_Some)
  qed
qed


lemma scan_phases_mono:
  assumes "scan_phases b s obj_flag bin_duration period p dur n_max n st = Some st'"
    and "\<not> exceeds x (best_objective (snd st) ! nat p)"
  shows "\<not> exceeds x (best_objective (snd st') ! nat p)"
proof (rule scan_phases_invariant [where I = "\<lambda>st. \<not> exceeds x (best_objective (snd st) ! nat p)", OF assms])
  fix m st1 st2
  assume I: "\<not> exceeds x (best_objective (snd st1) ! nat p)"
    and c: "candidate b s obj_flag bin_duration period p dur m st1 = Some st2"
  obtain l1 o1 l2 o2 where st: "st1 = (l1, o1)" "st2 = (l2, o2)"
    by (cases st1, cases st2) auto
  from candidate_mono [OF c [unfolded st]] I show "\<not> exceeds x (best_objective (snd st2) ! nat p)"
    by (simp add: st)
qed

lemma scan_durations_mono:
  assumes "scan_durations b s obj_flag bin_duration period p n_bins durs st = Some st'"
    and "\<not> exceeds x (best_objective (snd st) ! nat p)"
  shows "\<not> exceeds x (best_objective (snd st') ! nat p)"
proof (rule scan_durations_invariant [where I = "\<lambda>st. \<not> exceeds x (best_objective (snd st) ! nat p)", OF assms])
  fix dur m st1 st2
  assume I: "\<not> exceeds x (best_objective (snd st1) ! nat p)"
    and c: "candidate b s obj_flag bin_duration period p dur m st1 = Some st2"
  obtain l1 o1 l2 o2 where st: "st1 = (l1, o1)" "st2 = (l2, o2)"
    by (cases st1, cases st2) auto
  from candidate_mono [OF c [unfolded st]] I show "\<not> exceeds x (best_objective (snd st2) ! nat p)"
    by (simp add: st)
qed

lemma scan_phases_cover:
  assumes "scan_phases b (sum_y2, sum_y, sum_ivar) obj_flag bin_duration period p dur n_max n st = Some st'"
    and "n \<le> m" and "m \<le> n_max"
    and "window b sum_y sum_ivar dur m = Some w" and "\<not> skipped w" and "flux_in w \<le> flux_out w"
    and "evaluate (sum_y2, sum_y, sum_ivar) obj_flag w loc0 = Some r0"
  shows "\<not> exceeds (objective r0) (best_objective (snd st') ! nat p)"
  using assms
proof (induction b "(sum_y2, sum_y, sum_ivar)" obj_flag bin_duration period p dur n_max n st
    rule: scan_phases.induct)
  case (1 b obj_flag bin_duration period p dur n_max n st)
  let ?s = "(sum_y2, sum_y, sum_ivar)"
  from "1.prems" have True: "n \<le> n_max" by simp
  with "1.prems"(1) obtain st1 where
    c: "candidate b ?s obj_flag bin_duration period p dur n st = Some st1" and
    rest: "scan_phases b ?s obj_flag bin_duration period p dur n_max (n + 1) st1 = Some st'"
    by (auto simp: scan_phases.simps [of b ?s obj_flag bin_duration period p dur n_max n]
        Option.bind_eq_Some_conv)
  show ?case
  proof (cases "m = n")
    case same: True
    obtain l0 o0 l1 o1 where st: "st = (l0, o0)" "st1 = (l1, o1)"
      by (cases st, cases st1) auto
    from candidate_cover [OF c [unfolded st] "1.prems"(4) [unfolded same] "1.prems"(5,6)
        "1.prems"(7)]
    have "\<not> exceeds (objective r0) (best_objective (snd st1) ! nat p)"
      by (simp add: st)
    from scan_phases_mono [OF rest this] show ?thesis .
  next
    case False
    with "1.prems"(2) have "n + 1 \<le> m" by simp
    from "1.hyps" [OF True c rest this "1.prems"(3-7)] show ?thesis .
  qed
qed

lemma scan_durations_cover:
  assumes "scan_durations b (sum_y2, sum_y, sum_ivar) obj_flag bin_duration period p n_bins durs st = Some st'"
    and "dur \<in> set durs" and "0 \<le> m" and "m \<le> n_bins - dur"
    and "window b sum_y sum_ivar dur m = Some w" and "\<not> skipped w" and "flux_in w \<le> flux_out w"
    and "evaluate (sum_y2, sum_y, sum_ivar) obj_flag w loc0 = Some r0"
  shows "\<not> exceeds (objective r0) (best_objective (snd st') ! nat p)"
  using assms(1,2)
proof (induction durs arbitrary: st)
  case Nil
  then show ?case by simp
next
  case (Cons d rest)
  let ?s = "(sum_y2, sum_y, sum_ivar)"
  from Cons.prems(1) obtain st1 where
    ph: "scan_phases b ?s obj_flag bin_duration period p d (n_bins - d) 0 st = Some st1" and
    rest: "scan_durations b ?s obj_flag bin_duration period p n_bins rest st1 = Some st'"
    by (auto simp: Option.bind_eq_Some_conv)
  show ?case
  proof (cases "dur = d")
    case True
    from scan_phases_cover [OF ph [folded True] assms(3-8)]
    have "\<not> exceeds (objective r0) (best_objective (snd st1) ! nat p)" .
    from scan_durations_mono [OF rest this] show ?thesis .
  next
    case False
    with Cons.prems(2) have "dur \<in> set rest" by simp
    from Cons.IH [OF rest this] show ?thesis .
  qed
qed

lemma scan_durations_sentinel:
  assumes sc: "scan_durations b (sum_y2, sum_y, sum_ivar) obj_flag bin_duration period p n_bins durs st = Some st'"
    and init: "best_objective (snd st) ! nat p = MinusInfinity"
    and none: "\<And>dur m w. dur \<in> set durs \<Longrightarrow> 0 \<le> m \<Longrightarrow> m \<le> n_bins - dur \<Longrightarrow>
        window b sum_y sum_ivar dur m = Some w \<Longrightarrow> skipped w \<or> flux_out w < flux_in w"
  shows "best_objective (snd st') ! nat p = MinusInfinity"
proof (rule scan_durations_invariant
    [where I = "\<lambda>st. best_objective (snd st) ! nat p = MinusInfinity", OF sc init])
  fix dur m st1 st2
  assume dur: "dur \<in> set durs" and m: "0 \<le> m" "m \<le> n_bins - dur"
    and I: "best_objective (snd st1) ! nat p = MinusInfinity"
    and c: "candidate b (sum_y2, sum_y, sum_ivar) obj_flag bin_duration period p dur m st1 = Some st2"
  obtain l1 o1 l2 o2 where st: "st1 = (l1, o1)" "st2 = (l2, o2)"
    by (cases st1, cases st2) auto
  from candidate_Some [OF c [unfolded st]] obtain w where
    w: "window b sum_y sum_ivar dur m = Some w" and
    rest: "if skipped w then l2 = l1 \<and> o2 = o1
     else \<exists>r. evaluate (sum_y2, sum_y, sum_ivar) obj_flag w l1 = Some r \<and>
       (if flux_in w \<le> flux_out w
        then \<exists>best. rd (best_objective o1) p = Some best \<and>
          (if exceeds (objective r) best
           then accept (sum_y2, sum_y, sum_ivar) obj_flag bin_duration period p dur m w (r, o1) = Some (l2, o2)
           else l2 = r \<and> o2 = o1)
        else l2 = r \<and> o2 = o1)"
    by blast
  from none [OF dur m w] rest have "o2 = o1"
    by (auto split: if_splits)
  with I show "best_objective (snd st2) ! nat p = MinusInfinity"
    by (simp add: st)
qed


lemma scan_range_oversample:
  assumes valid: "valid_grids periods durations" and os: "oversample \<noteq> 0"
    and period: "period \<in> set periods"
    and range: "0 \<le> n" "0 \<le> dur" "n \<le> n_bins_of period (bin_duration_of durations oversample) oversample - dur"
  shows "1 \<le> oversample"
proof (rule ccontr)
  assume "\<not> 1 \<le> oversample"
  with os have neg: "oversample \<le> - 1" by simp
  from valid have "0 < Min (set durations)"
    using DBL_EPSILON_pos by (simp only: valid_grids_def) linarith
  with neg have bd: "bin_duration_of durations oversample < 0"
    by (simp add: bin_duration_of_def divide_pos_neg)
  from valid period have "Min (set periods) \<le> period"
    by simp
  moreover from valid have "0 < Min (set periods)"
    using DBL_EPSILON_pos by (simp only: valid_grids_def) linarith
  ultimately have "0 < period" by simp
  with bd have "period / bin_duration_of durations oversample < 0"
    by (simp add: divide_pos_neg)
  then have "c_trunc (period / bin_duration_of durations oversample) \<le> 0"
    by (simp add: c_trunc_def ceiling_le_zero)
  with neg have "n_bins_of period (bin_duration_of durations oversample) oversample \<le> - 1"
    by (simp add: n_bins_of_def)
  with range show False by simp
qed

lemma search_period_Some:
  assumes "search_period samples durations_index oversample s obj_flag bin_duration junk p period (b, out) =
             Some (b', out')"
  obtains loc where
    "fold_period samples oversample bin_duration period b = Some b'"
    "0 \<le> p" "p < int (length (best_objective out))"
    "scan_durations b' s obj_flag bin_duration period p (n_bins_of period bin_duration oversample)
       durations_index (junk, out\<lparr>best_objective := (best_objective out)[nat p := MinusInfinity]\<rparr>) =
       Some (loc, out')"
  using assms
  by (auto simp: search_period_def Option.bind_eq_Some_conv wr_Some)

lemma not_exceeds_Finite:
  assumes "\<not> exceeds x v"
  shows "\<exists>best. v = Finite best \<and> x \<le> best"
  using assms by (cases v) auto

lemma run_dominates_dips:
  assumes run: "run_transit_periodogram e samples periods durations oversample obj_flag out = Some (0, out')"
    and p: "p < length periods"
    and bd: "bin_duration = bin_duration_of durations oversample"
    and s: "accumulate samples (0, 0, 0) = (sum_y2, sum_y, sum_ivar)"
    and b: "fold_period samples oversample bin_duration (periods ! p) scratch = Some b"
    and k: "k < length durations" and dur: "dur = duration_bins bin_duration (durations ! k)"
    and n: "0 \<le> n" "n \<le> n_bins_of (periods ! p) bin_duration oversample - dur"
    and w: "window b sum_y sum_ivar dur n = Some w" "\<not> skipped w" "flux_in w \<le> flux_out w"
    and r: "evaluate (sum_y2, sum_y, sum_ivar) obj_flag w loc = Some r"
  shows "\<not> exceeds (objective r) (best_objective out' ! p)"
proof -
  let ?period = "periods ! p"
  let ?n = "n_bins_of ?period bin_duration oversample"
  from run_success [OF run] have valid: "valid_grids periods durations" and os0: "oversample \<noteq> 0"
    by simp_all
  from p have period: "?period \<in> set periods" by simp
  have dur1: "1 \<le> dur"
    unfolding dur by (rule duration_bins_pos)
  then have dur0: "0 \<le> dur" by simp
  have os: "1 \<le> oversample"
    using scan_range_oversample [OF valid os0 period n(1) dur0] n(2) by (simp add: bd)
  note g = grid_facts [OF valid os period, folded bd]
  from run_result [OF run p] obtain b1 out1 b2 out2 where
    sp: "search_period samples (map (duration_bins bin_duration) durations)
             oversample (sum_y2, sum_y, sum_ivar) obj_flag bin_duration
             (locals_uninit e) (int p) ?period (b1, out1) = Some (b2, out2)"
    and res: "result_at out' p = result_at out2 p"
    unfolding bd [symmetric] s by blast
  from search_period_Some [OF sp] obtain loc2 where
    f2: "fold_period samples oversample bin_duration ?period b1 = Some b2" and
    sc: "scan_durations b2 (sum_y2, sum_y, sum_ivar) obj_flag bin_duration ?period (int p) ?n
       (map (duration_bins bin_duration) durations)
       (locals_uninit e, out1\<lparr>best_objective := (best_objective out1)[nat (int p) := MinusInfinity]\<rparr>) =
       Some (loc2, out2)"
    by blast
  have le: "n + dur \<le> ?n"
    using n(2) by simp
  from fold_period_windows(1) [OF b f2 g(4) n(1) dur0 le] w(1)
  have w2: "window b2 sum_y sum_ivar dur n = Some w"
    by simp
  have mem: "dur \<in> set (map (duration_bins bin_duration) durations)"
    unfolding dur using k by simp
  from scan_durations_cover [OF sc mem n w2 w(2,3) r]
  have "\<not> exceeds (objective r) (best_objective out2 ! p)"
    by simp
  with res show ?thesis
    by (simp add: result_at_def)
qed

lemma run_sentinel:
  assumes run: "run_transit_periodogram e samples periods durations oversample obj_flag out = Some (0, out')"
    and os: "1 \<le> oversample"
    and p: "p < length periods"
    and bd: "bin_duration = bin_duration_of durations oversample"
    and s: "accumulate samples (0, 0, 0) = (sum_y2, sum_y, sum_ivar)"
    and b: "fold_period samples oversample bin_duration (periods ! p) scratch = Some b"
    and none: "\<And>k n w. k < length durations \<Longrightarrow> 0 \<le> n \<Longrightarrow>
        n \<le> n_bins_of (periods ! p) bin_duration oversample - duration_bins bin_duration (durations ! k) \<Longrightarrow>
        window b sum_y sum_ivar (duration_bins bin_duration (durations ! k)) n = Some w \<Longrightarrow>
        skipped w \<or> flux_out w < flux_in w"
  shows "best_objective out' ! p = MinusInfinity"
proof -
  let ?period = "periods ! p"
  let ?n = "n_bins_of ?period bin_duration oversample"
  from run_success [OF run] have valid: "valid_grids periods durations"
    by simp
  from p have period: "?period \<in> set periods" by simp
  note g = grid_facts [OF valid os period, folded bd]
  from run_result [OF run p] obtain b1 out1 b2 out2 where
    sp: "search_period samples (map (duration_bins bin_duration) durations)
             oversample (sum_y2, sum_y, sum_ivar) obj_flag bin_duration
             (locals_uninit e) (int p) ?period (b1, out1) = Some (b2, out2)"
    and res: "result_at out' p = result_at out2 p"
    unfolding bd [symmetric] s by blast
  from search_period_Some [OF sp] obtain loc2 where
    f2: "fold_period samples oversample bin_duration ?period b1 = Some b2" and
    len: "p < length (best_objective out1)" and
    sc: "scan_durations b2 (sum_y2, sum_y, sum_ivar) obj_flag bin_duration ?period (int p) ?n
       (map (duration_bins bin_duration) durations)
       (locals_uninit e, out1\<lparr>best_objective := (best_objective out1)[nat (int p) := MinusInfinity]\<rparr>) =
       Some (loc2, out2)"
    by (metis of_nat_less_iff)
  have "best_objective (snd (loc2, out2)) ! nat (int p) = MinusInfinity"
  proof (rule scan_durations_sentinel [OF sc])
    show "best_objective (snd (locals_uninit e,
        out1\<lparr>best_objective := (best_objective out1)[nat (int p) := MinusInfinity]\<rparr>)) ! nat (int p) =
        MinusInfinity"
      using len by simp
  next
    fix dur m w
    assume dur: "dur \<in> set (map (duration_bins bin_duration) durations)"
      and m: "0 \<le> m" "m \<le> ?n - dur"
      and w2: "window b2 sum_y sum_ivar dur m = Some w"
    from dur obtain k where k: "k < length durations" "dur = duration_bins bin_duration (durations ! k)"
      by (auto simp: in_set_conv_nth)
    have dur0: "0 \<le> dur"
      unfolding k(2) using duration_bins_pos [of bin_duration "durations ! k"] by simp
    have le: "m + dur \<le> ?n"
      using m(2) by simp
    from fold_period_windows(1) [OF b f2 g(4) m(1) dur0 le] w2
    have "window b sum_y sum_ivar dur m = Some w"
      by simp
    from none [OF k(1) m(1) m(2) [unfolded k(2)] this [unfolded k(2)]]
    show "skipped w \<or> flux_out w < flux_in w" .
  qed
  with res show ?thesis
    by (simp add: result_at_def)
qed


lemma evaluate_snr_sign:
  assumes "evaluate s 0 w loc = Some r"
  shows "(0 \<le> objective r \<longleftrightarrow> flux_in w \<le> flux_out w) \<and>
         (objective r < 0 \<longleftrightarrow> flux_out w < flux_in w)"
proof -
  obtain sum_y2 sum_y sum_ivar where s: "s = (sum_y2, sum_y, sum_ivar)"
    by (cases s) auto
  obtain y_in ivar_in y_out ivar_out where w: "w = (y_in, ivar_in, y_out, ivar_out)"
    by (cases w) auto
  from assms have pos: "0 < 1 / ivar_in + 1 / ivar_out"
    and obj: "objective r = (flux_out w - flux_in w) / sqrt (1 / ivar_in + 1 / ivar_out)"
    by (auto simp: evaluate_def s w compute_objective_def Let_def not_le split: if_splits)
  from pos have "0 < sqrt (1 / ivar_in + 1 / ivar_out)"
    by simp
  then show ?thesis
    unfolding obj by (simp add: zero_le_divide_iff divide_less_0_iff)
qed

lemma candidate_snr_nonneg:
  assumes step: "candidate b s 0 bin_duration period p dur n (loc, out) = Some (loc', out')"
    and inv: "best_objective out ! nat p = MinusInfinity \<or> \<not> exceeds 0 (best_objective out ! nat p)"
  shows "best_objective out' ! nat p = MinusInfinity \<or> \<not> exceeds 0 (best_objective out' ! nat p)"
proof -
  obtain sum_y2 sum_y sum_ivar where s: "s = (sum_y2, sum_y, sum_ivar)"
    by (cases s) auto
  from candidate_Some [OF step [unfolded s]]
  consider "out' = out"
    | w r where "flux_in w \<le> flux_out w"
        "evaluate (sum_y2, sum_y, sum_ivar) 0 w loc = Some r"
        "accept (sum_y2, sum_y, sum_ivar) 0 bin_duration period p dur n w (r, out) = Some (loc', out')"
    by (auto split: if_splits)
  then show ?thesis
  proof cases
    case 1
    with inv show ?thesis by simp
  next
    case 2
    from accept_Some [OF 2(3)] have "best_objective out' ! nat p = Finite (objective r)"
      by auto
    moreover from evaluate_snr_sign [OF 2(2)] 2(1) have "0 \<le> objective r"
      by simp
    ultimately show ?thesis by simp
  qed
qed

lemma run_snr_best_nonneg:
  assumes run: "run_transit_periodogram e samples periods durations oversample 0 out = Some (0, out')"
    and p: "p < length periods"
  shows "best_objective out' ! p = MinusInfinity \<or> \<not> exceeds 0 (best_objective out' ! p)"
proof -
  from run_result [OF run p] obtain b1 out1 b2 out2 where
    sp: "search_period samples (map (duration_bins (bin_duration_of durations oversample)) durations)
             oversample (accumulate samples (0, 0, 0)) 0 (bin_duration_of durations oversample)
             (locals_uninit e) (int p) (periods ! p) (b1, out1) = Some (b2, out2)"
    and res: "result_at out' p = result_at out2 p"
    by blast
  from search_period_Some [OF sp] obtain loc2 where
    len: "int p < int (length (best_objective out1))" and
    sc: "scan_durations b2 (accumulate samples (0, 0, 0)) 0 (bin_duration_of durations oversample)
       (periods ! p) (int p)
       (n_bins_of (periods ! p) (bin_duration_of durations oversample) oversample)
       (map (duration_bins (bin_duration_of durations oversample)) durations)
       (locals_uninit e, out1\<lparr>best_objective := (best_objective out1)[nat (int p) := MinusInfinity]\<rparr>) =
       Some (loc2, out2)"
    by blast
  let ?I = "\<lambda>st. best_objective (snd st) ! nat (int p) = MinusInfinity \<or>
                \<not> exceeds 0 (best_objective (snd st) ! nat (int p))"
  have "?I (loc2, out2)"
  proof (rule scan_durations_invariant [where I = ?I, OF sc])
    from len show "?I (locals_uninit e,
        out1\<lparr>best_objective := (best_objective out1)[nat (int p) := MinusInfinity]\<rparr>)"
      by simp
  next
    fix dur m st1 st2
    assume I: "?I st1"
      and c: "candidate b2 (accumulate samples (0, 0, 0)) 0 (bin_duration_of durations oversample)
                (periods ! p) (int p) dur m st1 = Some st2"
    obtain l1 o1 l2 o2 where st: "st1 = (l1, o1)" "st2 = (l2, o2)"
      by (cases st1, cases st2) auto
    from candidate_snr_nonneg [OF c [unfolded st]] I show "?I st2"
      by (simp add: st)
  qed
  with res show ?thesis
    by (simp add: result_at_def)
qed

lemma run_dominates_in_snr_mode:
  assumes run: "run_transit_periodogram e samples periods durations oversample 0 out = Some (0, out')"
    and p: "p < length periods"
    and acc: "best_objective out' ! p \<noteq> MinusInfinity"
    and bright: "flux_out w < flux_in w"
    and r: "evaluate s 0 w loc = Some r"
  shows "\<not> exceeds (objective r) (best_objective out' ! p)"
proof -
  from run_snr_best_nonneg [OF run p] acc have "\<not> exceeds 0 (best_objective out' ! p)"
    by simp
  then obtain B where B: "best_objective out' ! p = Finite B" "0 \<le> B"
    by (cases "best_objective out' ! p") auto
  from evaluate_snr_sign [OF r] bright have "objective r < 0"
    by simp
  with B show ?thesis
    by simp
qed


lemma example_run_snr:
  "\<exists>out'. run_transit_periodogram env_ok [(1 / 2, 1, 1), (3 / 2, 5, 1), (5 / 2, 2, 1)] [3] [1] 1 0
            (outputs_zero 1) = Some (0, out') \<and>
          best_objective out' ! 0 \<noteq> MinusInfinity"
  by (simp add: run_eval_simps)

text \<open>
  C1 (as amended). A window becomes the best only when it is a dip (\<open>y_out \<ge> y_in\<close>). In
  log-likelihood mode a brightening can therefore score higher than the accepted best. In
  depth-SNR mode it cannot: the objective of a brightening is negative and an accepted
  best is not. After a successful run with an accepted best at period \<open>p\<close>,
  \<open>best_objective[p]\<close> is at least the objective of every scanned pair (duration index
  \<open>k\<close>, start bin \<open>n\<close> in \<open>0..n_bins - duration_bins[k]\<close>) of that period that passes the
  skip rule: of every such pair when \<open>obj_flag = 0\<close>, of every such pair that is a dip when
  \<open>obj_flag\<close> is nonzero. A scanned dip that passes the skip rule always gives an accepted
  best. The windows are read from the arrays that lines 142-167 compute for that period
  from any scratch block.
\<close>

theorem best_objective_dominates:
  assumes run: "run_transit_periodogram e samples periods durations oversample obj_flag out = Some (0, out')"
    and p: "p < length periods"
    and bd: "bin_duration = bin_duration_of durations oversample"
    and s: "accumulate samples (0, 0, 0) = (sum_y2, sum_y, sum_ivar)"
    and b: "fold_period samples oversample bin_duration (periods ! p) scratch = Some b"
    and k: "k < length durations" and dur: "dur = duration_bins bin_duration (durations ! k)"
    and n: "0 \<le> n" "n \<le> n_bins_of (periods ! p) bin_duration oversample - dur"
    and w: "window b sum_y sum_ivar dur n = Some w" "\<not> skipped w"
    and r: "evaluate (sum_y2, sum_y, sum_ivar) obj_flag w loc = Some r"
    and scope: "flux_in w \<le> flux_out w \<or> (obj_flag = 0 \<and> best_objective out' ! p \<noteq> MinusInfinity)"
  shows "\<exists>best. best_objective out' ! p = Finite best \<and> objective r \<le> best"
proof (cases "flux_in w \<le> flux_out w")
  case True
  show ?thesis
    by (rule not_exceeds_Finite) (rule run_dominates_dips [OF run p bd s b k dur n w True r])
next
  case False
  with scope have flag: "obj_flag = 0" and acc: "best_objective out' ! p \<noteq> MinusInfinity"
    and bright: "flux_out w < flux_in w"
    by simp_all
  show ?thesis
    by (rule not_exceeds_Finite)
       (rule run_dominates_in_snr_mode [OF run [unfolded flag] p acc bright r [unfolded flag]])
qed

theorem best_objective_dominates_witness:
  "(\<exists>out' best. run_transit_periodogram env_ok [(1 / 2, 1, 1), (3 / 2, 5, 1), (5 / 2, 2, 1)] [3] [1] 1 1
       (outputs_zero 1) = Some (0, out') \<and>
     best_objective out' ! 0 = Finite best \<and> - 9 / 4 \<le> best) \<and>
   (\<exists>out' best. run_transit_periodogram env_ok [(1 / 2, 1, 1), (3 / 2, 5, 1), (5 / 2, 2, 1)] [3] [1] 1 0
       (outputs_zero 1) = Some (0, out') \<and>
     best_objective out' ! 0 = Finite best \<and> - (7 / 2) / sqrt (3 / 2) \<le> best)"
proof -
  let ?S = "[(1 / 2, 1, 1), (3 / 2, 5, 1), (5 / 2, 2, 1)] :: sample list"
  let ?b = "([0, 1, 6, 7, 7], [0, 1, 2, 3, 3]) :: bins"
  let ?r = "\<lparr>objective = - 9 / 4, log_likelihood = - 9 / 4, depth = 0, depth_err = 0, depth_snr = 0\<rparr>"
  let ?q = "\<lparr>objective = - (7 / 2) / sqrt (3 / 2), log_likelihood = 0, depth = - (7 / 2),
             depth_err = sqrt (3 / 2), depth_snr = - (7 / 2) / sqrt (3 / 2)\<rparr>"
  have bd: "(1::real) = bin_duration_of [1] 1"
    by (simp add: bin_duration_of_def)
  have s: "accumulate ?S (0, 0, 0) = (30, 8, 3)"
    by simp
  have b: "fold_period ?S 1 1 ([3] ! 0) ([0, 0, 0, 0, 0], [0, 0, 0, 0, 0]) = Some ?b"
    by (simp add: run_eval_simps)
  have dur: "(1::int) = duration_bins 1 ([1] ! 0)"
    by (simp add: duration_bins_def c_round_def)
  have n0: "(0::int) \<le> 0" "0 \<le> n_bins_of ([3] ! 0) 1 1 - 1"
    and n1: "(0::int) \<le> 1" "1 \<le> n_bins_of ([3] ! 0) 1 1 - 1"
    by (simp_all add: n_bins_of_def c_trunc_def)
  have w0: "window ?b 8 3 1 0 = Some (1, 1, 7, 2)" "\<not> skipped (1, 1, 7, 2)"
    and dip: "flux_in (1, 1, 7, 2) \<le> flux_out (1, 1, 7, 2)"
    and w1: "window ?b 8 3 1 1 = Some (5, 1, 3, 2)" "\<not> skipped (5, 1, 3, 2)"
    by (simp_all add: window_def rd_def skipped_def DBL_EPSILON_def flux_in_def flux_out_def)
  have r: "evaluate (30, 8, 3) 1 (1, 1, 7, 2) (locals_uninit env_ok) = Some ?r"
    by (simp add: evaluate_def flux_in_def flux_out_def compute_objective_def env_ok_def)
  have q: "evaluate (30, 8, 3) 0 (5, 1, 3, 2) (locals_uninit env_ok) = Some ?q"
    by (simp add: evaluate_def flux_in_def flux_out_def compute_objective_def env_ok_def)
  from best_objective_dominates [OF example_run _ bd s b _ dur n0 w0 r] dip
  have "\<exists>best. best_objective \<lparr>best_objective = [Finite (- 9 / 4)], best_depth = [5 / 2],
         best_depth_err = [sqrt (3 / 2)], best_duration = [1], best_phase = [1 / 2],
         best_depth_snr = [5 / 2 / sqrt (3 / 2)], best_log_like = [- 9 / 4]\<rparr> ! 0 = Finite best \<and>
       objective ?r \<le> best"
    by simp
  with example_run have one: "\<exists>out' best. run_transit_periodogram env_ok ?S [3] [1] 1 1
       (outputs_zero 1) = Some (0, out') \<and>
     best_objective out' ! 0 = Finite best \<and> - 9 / 4 \<le> best"
    by auto
  from example_run_snr obtain out' where
    run: "run_transit_periodogram env_ok ?S [3] [1] 1 0 (outputs_zero 1) = Some (0, out')"
    and acc: "best_objective out' ! 0 \<noteq> MinusInfinity"
    by blast
  from best_objective_dominates [OF run _ bd s b _ dur n1 w1 q] acc
  have "\<exists>best. best_objective out' ! 0 = Finite best \<and> objective ?q \<le> best"
    by simp
  with run have two: "\<exists>out' best. run_transit_periodogram env_ok ?S [3] [1] 1 0
       (outputs_zero 1) = Some (0, out') \<and>
     best_objective out' ! 0 = Finite best \<and> - (7 / 2) / sqrt (3 / 2) \<le> best"
    by auto
  from one two show ?thesis ..
qed

theorem brightening_exceeds_accepted_best:
  "run_transit_periodogram env_ok [(1 / 2, 1, 1), (3 / 2, 5, 1), (5 / 2, 2, 1)] [3] [1] 1 1 (outputs_zero 1) =
     Some (0, \<lparr>best_objective = [Finite (- 9 / 4)], best_depth = [5 / 2], best_depth_err = [sqrt (3 / 2)],
       best_duration = [1], best_phase = [1 / 2], best_depth_snr = [5 / 2 / sqrt (3 / 2)],
       best_log_like = [- 9 / 4]\<rparr>) \<and>
   accumulate [(1 / 2, 1, 1), (3 / 2, 5, 1), (5 / 2, 2, 1)] (0, 0, 0) = (30, 8, 3) \<and>
   fold_period [(1 / 2, 1, 1), (3 / 2, 5, 1), (5 / 2, 2, 1)] 1 (bin_duration_of [1] 1) ([3] ! 0)
     ([0, 0, 0, 0, 0], [0, 0, 0, 0, 0]) = Some ([0, 1, 6, 7, 7], [0, 1, 2, 3, 3]) \<and>
   duration_bins (bin_duration_of [1] 1) ([1] ! 0) = 1 \<and>
   (1::int) \<le> n_bins_of ([3] ! 0) (bin_duration_of [1] 1) 1 - 1 \<and>
   window ([0, 1, 6, 7, 7], [0, 1, 2, 3, 3]) 8 3 1 1 = Some (5, 1, 3, 2) \<and>
   \<not> skipped (5, 1, 3, 2) \<and>
   evaluate (30, 8, 3) 1 (5, 1, 3, 2) (locals_uninit env_ok) =
     Some \<lparr>objective = - 1 / 4, log_likelihood = - 1 / 4, depth = 0, depth_err = 0, depth_snr = 0\<rparr> \<and>
   (- 9 / 4 :: real) < - 1 / 4"
proof -
  have "fold_period [(1 / 2, 1, 1), (3 / 2, 5, 1), (5 / 2, 2, 1)] 1 (bin_duration_of [1] 1) ([3] ! 0)
     ([0, 0, 0, 0, 0], [0, 0, 0, 0, 0]) = Some ([0, 1, 6, 7, 7], [0, 1, 2, 3, 3])"
    by (simp add: bin_duration_of_def run_eval_simps)
  moreover have "duration_bins (bin_duration_of [1] 1) ([1] ! 0) = 1"
    "(1::int) \<le> n_bins_of ([3] ! 0) (bin_duration_of [1] 1) 1 - 1"
    by (simp_all add: bin_duration_of_def duration_bins_def c_round_def n_bins_of_def c_trunc_def)
  moreover have "window ([0, 1, 6, 7, 7], [0, 1, 2, 3, 3]) 8 3 1 1 = Some (5, 1, 3, 2)"
    "\<not> skipped (5, 1, 3, 2)"
    by (simp_all add: window_def rd_def skipped_def DBL_EPSILON_def)
  moreover have "evaluate (30, 8, 3) 1 (5, 1, 3, 2) (locals_uninit env_ok) =
     Some \<lparr>objective = - 1 / 4, log_likelihood = - 1 / 4, depth = 0, depth_err = 0, depth_snr = 0\<rparr>"
    by (simp add: evaluate_def flux_in_def flux_out_def compute_objective_def env_ok_def)
  ultimately show ?thesis
    using example_run by simp
qed

text \<open>
  C6. A window is accepted as soon as it passes the skip rule and is a dip, since any
  objective exceeds \<open>-\<infinity>\<close>. So when every scanned window of period \<open>p\<close> is skipped
  (\<open>ivar_in < \<epsilon>\<close> or \<open>ivar_out < \<epsilon>\<close>) or is a brightening, no candidate is accepted for
  that period: the run on valid inputs still returns status 0, and \<open>best_objective[p]\<close>
  is \<open>-\<infinity>\<close>.
\<close>

theorem no_detection_sentinel:
  assumes valid: "valid_grids periods durations" and os: "1 \<le> oversample"
    and alloc: "allocations_succeed e" and fit: "outputs_fit (length periods) out"
    and p: "p < length periods"
    and bd: "bin_duration = bin_duration_of durations oversample"
    and s: "accumulate samples (0, 0, 0) = (sum_y2, sum_y, sum_ivar)"
    and b: "fold_period samples oversample bin_duration (periods ! p) scratch = Some b"
    and none: "\<forall>k n w. k < length durations \<and> 0 \<le> n \<and>
        n \<le> n_bins_of (periods ! p) bin_duration oversample - duration_bins bin_duration (durations ! k) \<and>
        window b sum_y sum_ivar (duration_bins bin_duration (durations ! k)) n = Some w \<longrightarrow>
        skipped w \<or> flux_out w < flux_in w"
  shows "\<exists>out'. run_transit_periodogram e samples periods durations oversample obj_flag out = Some (0, out') \<and>
           best_objective out' ! p = MinusInfinity"
proof -
  from run_defined [OF valid os alloc fit] obtain out' where
    run: "run_transit_periodogram e samples periods durations oversample obj_flag out = Some (0, out')"
    by blast
  have "best_objective out' ! p = MinusInfinity"
    by (rule run_sentinel [OF run os p bd s b]) (use none in blast)
  with run show ?thesis
    by blast
qed

theorem no_detection_sentinel_witness:
  "valid_grids [3] [1] \<and> allocations_succeed env_ok \<and> outputs_fit (length [3::real]) (outputs_zero 1) \<and>
   fold_period [(1 / 2, 1, 1)] 1 (bin_duration_of [1] 1) ([3] ! 0) ([0, 0, 0, 0, 0], [0, 0, 0, 0, 0]) =
     Some ([0, 1, 1, 2, 2], [0, 1, 1, 2, 2]) \<and>
   (\<exists>out'. run_transit_periodogram env_ok [(1 / 2, 1, 1)] [3] [1] 1 0 (outputs_zero 1) = Some (0, out') \<and>
           best_objective out' ! 0 = MinusInfinity)"
proof -
  let ?b = "([0, 1, 1, 2, 2], [0, 1, 1, 2, 2]) :: bins"
  have valid: "valid_grids [3] [1]"
    by (simp add: valid_grids_def DBL_EPSILON_def)
  have alloc: "allocations_succeed env_ok"
    by (simp add: allocations_succeed_def env_ok_def)
  have fit: "outputs_fit (length [3::real]) (outputs_zero 1)"
    by (simp add: outputs_fit_def outputs_zero_def sizes_def)
  have bd: "(1::real) = bin_duration_of [1] 1"
    by (simp add: bin_duration_of_def)
  have s: "accumulate [(1 / 2, 1, 1)] (0, 0, 0) = (1, 1, 1)"
    by simp
  have b: "fold_period [(1 / 2, 1, 1)] 1 1 ([3] ! 0) ([0, 0, 0, 0, 0], [0, 0, 0, 0, 0]) = Some ?b"
    by (simp add: run_eval_simps)
  have none: "\<forall>k n w. k < length [1::real] \<and> 0 \<le> n \<and>
        n \<le> n_bins_of ([3] ! 0) 1 1 - duration_bins 1 ([1] ! k) \<and>
        window ?b 1 1 (duration_bins 1 ([1] ! k)) n = Some w \<longrightarrow>
        skipped w \<or> flux_out w < flux_in w"
  proof (intro allI impI)
    fix k :: nat and n :: int and w
    assume a: "k < length [1::real] \<and> 0 \<le> n \<and>
        n \<le> n_bins_of ([3] ! 0) 1 1 - duration_bins 1 ([1] ! k) \<and>
        window ?b 1 1 (duration_bins 1 ([1] ! k)) n = Some w"
    then have k: "k = 0" by simp
    have d: "duration_bins 1 ([1] ! 0) = 1" "n_bins_of ([3] ! 0) 1 1 = 4"
      by (simp_all add: duration_bins_def c_round_def n_bins_of_def c_trunc_def)
    from a have "n = 0 \<or> n = 1 \<or> n = 2 \<or> n = 3"
      unfolding k d by arith
    with a show "skipped w \<or> flux_out w < flux_in w"
      unfolding k d by (auto simp: window_def rd_def skipped_def DBL_EPSILON_def)
  qed
  from no_detection_sentinel [OF valid _ alloc fit _ bd s b none, of 0] valid alloc fit b bd
  show ?thesis
    by simp
qed

section \<open>The wrap-around step\<close>

text \<open>
  What the loop of lines 154-157 does when the sources lie below the destinations
  (\<open>oversample < ind\<close>): position \<open>ind + j\<close> receives bin \<open>n + j\<close>, for \<open>j\<close> up to
  \<open>oversample - n\<close>, and every other position keeps its value. Entered with \<open>n = 1\<close> and
  \<open>ind = n_bins - oversample\<close>, it writes position \<open>n_bins - oversample\<close> and leaves
  position \<open>n_bins\<close> alone.
\<close>

lemma wrap_bins_destination:
  assumes "wrap_bins oversample n ind (mean_y, mean_ivar) = Some (mean_y', mean_ivar')"
    and "0 \<le> n" and "oversample < ind"
  shows "mean_y' ! i = (if ind \<le> int i \<and> int i \<le> ind + (oversample - n)
                        then mean_y ! nat (n + (int i - ind)) else mean_y ! i) \<and>
         mean_ivar' ! i = (if ind \<le> int i \<and> int i \<le> ind + (oversample - n)
                        then mean_ivar ! nat (n + (int i - ind)) else mean_ivar ! i)"
  using assms
proof (induction oversample n ind "(mean_y, mean_ivar)" arbitrary: mean_y mean_ivar rule: wrap_bins.induct)
  case (1 oversample n ind mean_y mean_ivar)
  show ?case
  proof (cases "n \<le> oversample")
    case True
    from wrap_bins_step [OF "1.prems"(1) True] obtain src_y y1 src_ivar i1 where
      st: "rd mean_y n = Some src_y" "wr mean_y ind src_y = Some y1"
        "rd mean_ivar n = Some src_ivar" "wr mean_ivar ind src_ivar = Some i1"
      and rest: "wrap_bins oversample (n + 1) (ind + 1) (y1, i1) = Some (mean_y', mean_ivar')"
      by blast
    from st have upd: "y1 = mean_y[nat ind := mean_y ! nat n]" "i1 = mean_ivar[nat ind := mean_ivar ! nat n]"
      and len: "nat ind < length mean_y" "nat ind < length mean_ivar" and ind: "0 \<le> ind"
      by (auto simp: rd_Some wr_Some)
    have IH: "mean_y' ! i = (if ind + 1 \<le> int i \<and> int i \<le> ind + 1 + (oversample - (n + 1))
                        then y1 ! nat (n + 1 + (int i - (ind + 1))) else y1 ! i) \<and>
         mean_ivar' ! i = (if ind + 1 \<le> int i \<and> int i \<le> ind + 1 + (oversample - (n + 1))
                        then i1 ! nat (n + 1 + (int i - (ind + 1))) else i1 ! i)"
      using "1.hyps" [OF True st rest] "1.prems"(2,3) by simp
    show ?thesis
    proof (cases "int i = ind")
      case here: True
      then have "i = nat ind" by simp
      with IH len here True show ?thesis
        by (simp add: upd)
    next
      case False
      then have ne: "i \<noteq> nat ind" using ind by auto
      show ?thesis
      proof (cases "ind + 1 \<le> int i \<and> int i \<le> ind + (oversample - n)")
        case inside: True
        then have "0 \<le> n + (int i - ind)" "n + (int i - ind) < ind"
          using "1.prems"(2,3) by simp_all
        then have src: "nat (n + 1 + (int i - (ind + 1))) \<noteq> nat ind"
          by arith
        from IH inside src show ?thesis
          by (simp add: upd algebra_simps)
      next
        case outside: False
        with IH False ne show ?thesis
          by (auto simp: upd)
      qed
    qed
  next
    case False
    with "1.prems" show ?thesis
      by (simp add: wrap_bins.simps [of oversample n])
  qed
qed

lemma wrap_bins_off_by_one:
  assumes "wrap_bins oversample 1 (n_bins - oversample) (mean_y, mean_ivar) = Some (mean_y', mean_ivar')"
    and "1 \<le> oversample" and "2 * oversample < n_bins"
  shows "mean_y' ! nat (n_bins - oversample) = mean_y ! 1"
    and "mean_y' ! nat n_bins = mean_y ! nat n_bins"
proof -
  have lt: "oversample < n_bins - oversample" using assms(3) by simp
  note d = wrap_bins_destination [OF assms(1) _ lt]
  from d [of "nat (n_bins - oversample)"] assms(2,3)
  show "mean_y' ! nat (n_bins - oversample) = mean_y ! 1"
    by simp
  from d [of "nat n_bins"] assms(2,3)
  show "mean_y' ! nat n_bins = mean_y ! nat n_bins"
    by simp
qed

text \<open>
  C5. The claim places the copies of bins \<open>1..oversample\<close> at the tail positions
  \<open>n_bins - oversample + 1..n_bins\<close>. The loop of line 154 starts its destination index
  at \<open>n_bins - oversample\<close>, one position lower. For period 3, bin width 1 and
  \<open>oversample = 1\<close> (so \<open>n_bins = 4\<close>), with one sample in each of the bins 1, 2 and 3,
  the copy of bin 1 lands on position 3 and replaces the histogram value of bin 3,
  while the tail position 4 keeps the 0 of the clearing pass.
\<close>

theorem wrap_overwrites_last_bin:
  "n_bins_of 3 1 1 = 4 \<and>
   clear_bins 4 0 ([7, 7, 7, 7, 7], [9, 9, 9, 9, 9]) = Some ([0, 0, 0, 0, 0], [0, 0, 0, 0, 0]) \<and>
   bin_samples 3 1 [(1 / 2, 1, 1), (3 / 2, 5, 2), (5 / 2, 2, 4)] ([0, 0, 0, 0, 0], [0, 0, 0, 0, 0]) =
     Some ([0, 1, 10, 8, 0], [0, 1, 2, 4, 0]) \<and>
   wrap_bins 1 1 (4 - 1) ([0, 1, 10, 8, 0], [0, 1, 2, 4, 0]) = Some ([0, 1, 10, 1, 0], [0, 1, 2, 1, 0])"
  by (simp add: run_eval_simps)

section \<open>Acceptance and ties within one scan\<close>

lemma run_candidates_append:
  "run_candidates b s obj_flag bin_duration period p (xs @ ys) st =
     run_candidates b s obj_flag bin_duration period p xs st \<bind>
     run_candidates b s obj_flag bin_duration period p ys"
proof (induction xs arbitrary: st)
  case Nil
  show ?case by simp
next
  case (Cons c xs)
  obtain dur n where c: "c = (dur, n)" by (cases c) auto
  show ?case
    by (cases "candidate b s obj_flag bin_duration period p dur n st") (simp_all add: c Cons.IH)
qed

lemma scan_phases_run_candidates:
  "scan_phases b s obj_flag bin_duration period p dur n_max n st =
     run_candidates b s obj_flag bin_duration period p (map (Pair dur) [n..n_max]) st"
proof (induction b s obj_flag bin_duration period p dur n_max n st rule: scan_phases.induct)
  case (1 b s obj_flag bin_duration period p dur n_max n st)
  show ?case
  proof (cases "n \<le> n_max")
    case True
    show ?thesis
    proof (cases "candidate b s obj_flag bin_duration period p dur n st")
      case None
      with True show ?thesis
        by (simp add: scan_phases.simps [of b s obj_flag bin_duration period p dur n_max n]
            upto_rec1 [of n n_max])
    next
      case (Some st1)
      with True "1.IH" [OF True Some] show ?thesis
        by (simp add: scan_phases.simps [of b s obj_flag bin_duration period p dur n_max n]
            upto_rec1 [of n n_max])
    qed
  next
    case False
    then show ?thesis
      by (simp add: scan_phases.simps [of b s obj_flag bin_duration period p dur n_max n])
  qed
qed

lemma scan_durations_run_candidates:
  "scan_durations b s obj_flag bin_duration period p n_bins durs st =
     run_candidates b s obj_flag bin_duration period p (scan_order n_bins durs) st"
proof (induction durs arbitrary: st)
  case Nil
  show ?case by (simp add: scan_order_def)
next
  case (Cons dur rest)
  have "scan_order n_bins (dur # rest) = map (Pair dur) [0..n_bins - dur] @ scan_order n_bins rest"
    by (simp add: scan_order_def)
  then show ?case
    by (simp add: run_candidates_append scan_phases_run_candidates Cons.IH cong: Option.bind_cong)
qed


lemma dip_score_eq:
  assumes "window b sum_y sum_ivar dur n = Some w"
  shows "dip_score b (sum_y2, sum_y, sum_ivar) obj_flag (dur, n) =
    (if skipped w \<or> \<not> flux_in w \<le> flux_out w then None
     else Some (objective (the (evaluate (sum_y2, sum_y, sum_ivar) obj_flag w loc))))"
proof (cases "skipped w \<or> \<not> flux_in w \<le> flux_out w")
  case True
  with assms show ?thesis
    by (auto simp: dip_score_def)
next
  case False
  then have ns: "\<not> skipped w" by simp
  let ?z = "\<lparr>objective = 0, log_likelihood = 0, depth = 0, depth_err = 0, depth_snr = 0\<rparr>"
  obtain r0 where r0: "evaluate (sum_y2, sum_y, sum_ivar) obj_flag w ?z = Some r0"
    using evaluate_defined [OF ns] by blast
  obtain r where r: "evaluate (sum_y2, sum_y, sum_ivar) obj_flag w loc = Some r"
    using evaluate_defined [OF ns] by blast
  from evaluate_objective_indep [OF r0 r] assms False r0 r show ?thesis
    by (simp add: dip_score_def)
qed

lemma candidate_score_step:
  assumes step: "candidate b s obj_flag bin_duration period p dur n (loc, out) = Some (loc', out')"
  shows "case dip_score b s obj_flag (dur, n) of
           None \<Rightarrow> out' = out
         | Some x \<Rightarrow>
             if exceeds x (best_objective out ! nat p)
             then best_objective out' ! nat p = Finite x \<and>
                  best_duration out' ! nat p = of_int dur * bin_duration \<and>
                  best_phase out' ! nat p =
                    fmod (of_int n * bin_duration + of_int dur * bin_duration / 2) period
             else out' = out"
proof -
  obtain sum_y2 sum_y sum_ivar where s: "s = (sum_y2, sum_y, sum_ivar)"
    by (cases s) auto
  from candidate_Some [OF step [unfolded s]] obtain w where
    w: "window b sum_y sum_ivar dur n = Some w" and
    rest: "if skipped w then loc' = loc \<and> out' = out
     else \<exists>r. evaluate (sum_y2, sum_y, sum_ivar) obj_flag w loc = Some r \<and>
       (if flux_in w \<le> flux_out w
        then \<exists>best. rd (best_objective out) p = Some best \<and>
          (if exceeds (objective r) best
           then accept (sum_y2, sum_y, sum_ivar) obj_flag bin_duration period p dur n w (r, out) = Some (loc', out')
           else loc' = r \<and> out' = out)
        else loc' = r \<and> out' = out)"
    by blast
  note score = dip_score_eq [OF w, of sum_y2 obj_flag loc, folded s]
  show ?thesis
  proof (cases "skipped w \<or> \<not> flux_in w \<le> flux_out w")
    case True
    with rest score show ?thesis
      by (auto split: if_splits)
  next
    case False
    with rest obtain r best where
      r: "evaluate (sum_y2, sum_y, sum_ivar) obj_flag w loc = Some r" and
      best: "rd (best_objective out) p = Some best" and
      rest': "if exceeds (objective r) best
           then accept (sum_y2, sum_y, sum_ivar) obj_flag bin_duration period p dur n w (r, out) = Some (loc', out')
           else loc' = r \<and> out' = out"
      by auto
    from score False r have sc: "dip_score b s obj_flag (dur, n) = Some (objective r)"
      by (simp add: s)
    from best have old: "best_objective out ! nat p = best"
      by (simp add: rd_Some)
    show ?thesis
    proof (cases "exceeds (objective r) best")
      case True
      with rest' have acc: "accept (sum_y2, sum_y, sum_ivar) obj_flag bin_duration period p dur n w (r, out) =
          Some (loc', out')"
        by simp
      from accept_Some [OF acc] have len: "nat p < length (best_objective out)"
        "nat p < length (best_duration out)" "nat p < length (best_phase out)"
        by auto
      from accept_Some [OF acc] True len show ?thesis
        unfolding sc old by simp
    next
      case False
      with rest' show ?thesis
        unfolding sc old by simp
    qed
  qed
qed


lemma retained_keep:
  assumes "retained b s obj_flag bin_duration period p cs out i B"
    and "\<forall>x. dip_score b s obj_flag c = Some x \<longrightarrow> x \<le> B"
  shows "retained b s obj_flag bin_duration period p (cs @ [c]) out i B"
  using assms unfolding retained_def
  by (simp add: nth_append less_Suc_eq) 

lemma retained_new:
  assumes "dip_score b s obj_flag (dur, n) = Some x"
    and "\<forall>j<length cs. \<forall>y. dip_score b s obj_flag (cs ! j) = Some y \<longrightarrow> y < x"
    and "best_objective out ! nat p = Finite x"
    and "best_duration out ! nat p = of_int dur * bin_duration"
    and "best_phase out ! nat p = fmod (of_int n * bin_duration + of_int dur * bin_duration / 2) period"
  shows "retained b s obj_flag bin_duration period p (cs @ [(dur, n)]) out (length cs) x"
  using assms unfolding retained_def
  by (simp add: nth_append less_Suc_eq less_imp_le)

lemma run_candidates_first_wins:
  assumes "run_candidates b s obj_flag bin_duration period p cs (loc, out) = Some (loc', out')"
    and "best_objective out ! nat p = MinusInfinity"
  shows "(best_objective out' ! nat p = MinusInfinity \<and>
          (\<forall>j<length cs. dip_score b s obj_flag (cs ! j) = None)) \<or>
         (\<exists>i B. retained b s obj_flag bin_duration period p cs out' i B)"
  using assms(1)
proof (induction cs arbitrary: loc' out' rule: rev_induct)
  case Nil
  with assms(2) show ?case by simp
next
  case (snoc c cs)
  obtain dur n where c: "c = (dur, n)" by (cases c) auto
  from snoc.prems obtain l1 o1 where
    pre: "run_candidates b s obj_flag bin_duration period p cs (loc, out) = Some (l1, o1)" and
    step: "candidate b s obj_flag bin_duration period p dur n (l1, o1) = Some (loc', out')"
    by (auto simp: run_candidates_append c Option.bind_eq_Some_conv)
  note sc = candidate_score_step [OF step]
  let ?score = "dip_score b s obj_flag"
  from snoc.IH [OF pre]
  consider (none) "best_objective o1 ! nat p = MinusInfinity" "\<forall>j<length cs. ?score (cs ! j) = None"
    | (some) i B where "retained b s obj_flag bin_duration period p cs o1 i B"
    by blast
  then show ?case
  proof cases
    case none
    show ?thesis
    proof (cases "?score (dur, n)")
      case None
      with sc have "out' = o1" by simp
      with none None have "best_objective out' ! nat p = MinusInfinity \<and>
          (\<forall>j<length (cs @ [c]). ?score ((cs @ [c]) ! j) = None)"
        by (simp add: c nth_append less_Suc_eq)
      then show ?thesis ..
    next
      case (Some x)
      with sc none(1) have acc: "best_objective out' ! nat p = Finite x"
        "best_duration out' ! nat p = of_int dur * bin_duration"
        "best_phase out' ! nat p = fmod (of_int n * bin_duration + of_int dur * bin_duration / 2) period"
        by simp_all
      from none(2) have "\<forall>j<length cs. \<forall>y. ?score (cs ! j) = Some y \<longrightarrow> y < x"
        by simp
      from retained_new [OF Some this acc]
      have "retained b s obj_flag bin_duration period p (cs @ [c]) out' (length cs) x"
        by (simp add: c)
      then show ?thesis by blast
    qed
  next
    case some
    then have best: "best_objective o1 ! nat p = Finite B"
      and all: "\<forall>j<length cs. \<forall>y. ?score (cs ! j) = Some y \<longrightarrow> y \<le> B"
      by (simp_all add: retained_def)
    show ?thesis
    proof (cases "\<exists>x. ?score (dur, n) = Some x \<and> B < x")
      case True
      then obtain x where x: "?score (dur, n) = Some x" "B < x" by blast
      with sc best have acc: "best_objective out' ! nat p = Finite x"
        "best_duration out' ! nat p = of_int dur * bin_duration"
        "best_phase out' ! nat p = fmod (of_int n * bin_duration + of_int dur * bin_duration / 2) period"
        by simp_all
      have "\<forall>j<length cs. \<forall>y. ?score (cs ! j) = Some y \<longrightarrow> y < x"
      proof (intro allI impI)
        fix j y assume "j < length cs" "?score (cs ! j) = Some y"
        with all have "y \<le> B" by blast
        with x(2) show "y < x" by simp
      qed
      from retained_new [OF x(1) this acc]
      have "retained b s obj_flag bin_duration period p (cs @ [c]) out' (length cs) x"
        by (simp add: c)
      then show ?thesis by blast
    next
      case False
      then have le: "\<forall>x. ?score c = Some x \<longrightarrow> x \<le> B"
        by (auto simp: c not_less)
      from False sc best have "out' = o1"
        by (cases "?score (dur, n)") (auto simp: not_less)
      with retained_keep [OF some le]
      have "retained b s obj_flag bin_duration period p (cs @ [c]) out' i B"
        by simp
      then show ?thesis by blast
    qed
  qed
qed

text \<open>
  C4. A candidate that passes the skip rule is accepted (the outputs change) if and only
  if its window is a dip, \<open>y_out \<ge> y_in\<close>, and its objective is strictly greater than the
  current \<open>best_objective[p]\<close>, which then becomes that objective; a candidate whose
  objective equals the current best leaves all outputs as they are. Consequently, after
  the scan of one period started from \<open>best_objective[p] = -\<infinity>\<close>, either no candidate
  scored, or the outputs record the first candidate in scan order (duration index, then
  start bin) whose objective is the maximum: every candidate before it scores strictly
  less and none scores more.
\<close>

theorem acceptance_rule:
  "(candidate b (sum_y2, sum_y, sum_ivar) obj_flag bin_duration period p dur n (loc, out) = Some (loc', out') \<and>
    window b sum_y sum_ivar dur n = Some w \<and>
    evaluate (sum_y2, sum_y, sum_ivar) obj_flag w loc = Some r \<and>
    rd (best_objective out) p = Some best \<and> \<not> skipped w \<longrightarrow>
      (out' \<noteq> out \<longleftrightarrow> flux_in w \<le> flux_out w \<and> exceeds (objective r) best) \<and>
      (out' \<noteq> out \<longrightarrow> best_objective out' ! nat p = Finite (objective r)) \<and>
      (best = Finite (objective r) \<longrightarrow> out' = out)) \<and>
   (scan_durations b (sum_y2, sum_y, sum_ivar) obj_flag bin_duration period p n_bins durs (loc0, out0) =
      Some (loc1, out1) \<and>
    best_objective out0 ! nat p = MinusInfinity \<longrightarrow>
      (best_objective out1 ! nat p = MinusInfinity \<and>
       (\<forall>j<length (scan_order n_bins durs).
          dip_score b (sum_y2, sum_y, sum_ivar) obj_flag (scan_order n_bins durs ! j) = None)) \<or>
      (\<exists>i B. retained b (sum_y2, sum_y, sum_ivar) obj_flag bin_duration period p
                (scan_order n_bins durs) out1 i B))"
proof (rule conjI; rule impI)
  assume a: "candidate b (sum_y2, sum_y, sum_ivar) obj_flag bin_duration period p dur n (loc, out) =
      Some (loc', out') \<and>
    window b sum_y sum_ivar dur n = Some w \<and>
    evaluate (sum_y2, sum_y, sum_ivar) obj_flag w loc = Some r \<and>
    rd (best_objective out) p = Some best \<and> \<not> skipped w"
  then have step: "candidate b (sum_y2, sum_y, sum_ivar) obj_flag bin_duration period p dur n (loc, out) =
                   Some (loc', out')"
    and w: "window b sum_y sum_ivar dur n = Some w"
    and r: "evaluate (sum_y2, sum_y, sum_ivar) obj_flag w loc = Some r"
    and best: "rd (best_objective out) p = Some best"
    and scanned: "\<not> skipped w"
    by simp_all
  show "(out' \<noteq> out \<longleftrightarrow> flux_in w \<le> flux_out w \<and> exceeds (objective r) best) \<and>
      (out' \<noteq> out \<longrightarrow> best_objective out' ! nat p = Finite (objective r)) \<and>
      (best = Finite (objective r) \<longrightarrow> out' = out)"
  proof (cases "flux_in w \<le> flux_out w \<and> exceeds (objective r) best")
    case True
    with candidate_Some [OF step] w r best scanned
    have acc: "accept (sum_y2, sum_y, sum_ivar) obj_flag bin_duration period p dur n w (r, out) = Some (loc', out')"
      by auto
    note a = accept_Some [OF acc]
    from a have bo: "best_objective out' = (best_objective out)[nat p := Finite (objective r)]"
      by simp
    from a have len: "nat p < length (best_objective out)"
      by auto
    from best have old: "best_objective out ! nat p = best"
      by (simp add: rd_Some)
    have new: "best_objective out' ! nat p = Finite (objective r)"
      using bo len by simp
    have "best \<noteq> Finite (objective r)"
      using True by auto
    with old new have "out' \<noteq> out"
      by auto
    with True new show ?thesis
      by auto
  next
    case False
    with candidate_Some [OF step] w r best scanned have "out' = out"
      by (auto split: if_splits)
    with False show ?thesis
      by auto
  qed
next
  assume "scan_durations b (sum_y2, sum_y, sum_ivar) obj_flag bin_duration period p n_bins durs (loc0, out0) =
      Some (loc1, out1) \<and>
    best_objective out0 ! nat p = MinusInfinity"
  then have "run_candidates b (sum_y2, sum_y, sum_ivar) obj_flag bin_duration period p
      (scan_order n_bins durs) (loc0, out0) = Some (loc1, out1)"
    and "best_objective out0 ! nat p = MinusInfinity"
    by (simp_all add: scan_durations_run_candidates)
  then show "(best_objective out1 ! nat p = MinusInfinity \<and>
       (\<forall>j<length (scan_order n_bins durs).
          dip_score b (sum_y2, sum_y, sum_ivar) obj_flag (scan_order n_bins durs ! j) = None)) \<or>
      (\<exists>i B. retained b (sum_y2, sum_y, sum_ivar) obj_flag bin_duration period p
                (scan_order n_bins durs) out1 i B)"
    by (rule run_candidates_first_wins)
qed

theorem acceptance_rule_witness:
  "(\<exists>loc' out'. candidate ([0, 1, 6, 7, 7], [0, 1, 2, 3, 3]) (30, 8, 3) 1 1 3 0 1 0
       (locals_uninit env_ok, outputs_zero 1) = Some (loc', out') \<and> out' = outputs_zero 1) \<and>
   (\<exists>loc1 out1 i B. scan_durations ([0, 1, 6, 7, 7], [0, 1, 2, 3, 3]) (30, 8, 3) 1 1 3 0 4 [1]
       (locals_uninit env_ok, (outputs_zero 1)\<lparr>best_objective := [MinusInfinity]\<rparr>) = Some (loc1, out1) \<and>
     best_phase out1 = [1 / 2] \<and>
     retained ([0, 1, 6, 7, 7], [0, 1, 2, 3, 3]) (30, 8, 3) 1 1 3 0 (scan_order 4 [1]) out1 i B)"
proof -
  let ?b = "([0, 1, 6, 7, 7], [0, 1, 2, 3, 3]) :: bins"
  let ?r = "\<lparr>objective = - 9 / 4, log_likelihood = - 9 / 4, depth = 0, depth_err = 0, depth_snr = 0\<rparr>"
  let ?o = "\<lparr>best_objective = [Finite (- 9 / 4)], best_depth = [5 / 2], best_depth_err = [sqrt (3 / 2)],
       best_duration = [1], best_phase = [1 / 2], best_depth_snr = [5 / 2 / sqrt (3 / 2)],
       best_log_like = [- 9 / 4]\<rparr>"
  have w: "window ?b 8 3 1 0 = Some (1, 1, 7, 2)"
    by (simp add: window_def rd_def)
  have r: "evaluate (30, 8, 3) 1 (1, 1, 7, 2) (locals_uninit env_ok) = Some ?r"
    by (simp add: evaluate_def flux_in_def flux_out_def compute_objective_def env_ok_def)
  have best: "rd (best_objective (outputs_zero 1)) 0 = Some (Finite 0)"
    by (simp add: rd_def outputs_zero_def)
  have scanned: "\<not> skipped (1, 1, 7, 2)"
    by (simp add: skipped_def DBL_EPSILON_def)
  obtain loc' out' where step: "candidate ?b (30, 8, 3) 1 1 3 0 1 0
       (locals_uninit env_ok, outputs_zero 1) = Some (loc', out')"
    using w r best scanned
    by (auto simp: candidate_def flux_in_def flux_out_def)
  obtain loc1 where scan: "scan_durations ?b (30, 8, 3) 1 1 3 0 4 [1]
       (locals_uninit env_ok, (outputs_zero 1)\<lparr>best_objective := [MinusInfinity]\<rparr>) = Some (loc1, ?o)"
    by (simp add: run_eval_simps)
  have init: "best_objective ((outputs_zero 1)\<lparr>best_objective := [MinusInfinity]\<rparr>) ! nat 0 = MinusInfinity"
    by simp
  note inst = acceptance_rule [of ?b 30 8 3 1 1 3 0 1 0 "locals_uninit env_ok" "outputs_zero 1" loc' out'
      "(1, 1, 7, 2)" ?r "Finite 0" 4 "[1]" "locals_uninit env_ok"
      "(outputs_zero 1)\<lparr>best_objective := [MinusInfinity]\<rparr>" loc1 ?o]
  from inst step w r best scanned have one: "out' = outputs_zero 1"
    by auto
  from inst scan init have "\<exists>i B. retained ?b (30, 8, 3) 1 1 3 0 (scan_order 4 [1]) ?o i B"
    by simp
  with one step scan show ?thesis
    by auto
qed

end
